theory Spec2Isabelle
  imports Main
begin

section \<open>JavaScript strings\<close>

text \<open>
  Strings are lists of 8-bit characters: the model covers the strings whose UTF-16 code
  units are all below 256. \<open>js_split sep s\<close> is \<^verbatim>\<open>s.split(sep)\<close> for a one-character
  separator (the result is never empty: \<^verbatim>\<open>''.split('/')\<close> is \<^verbatim>\<open>['']\<close>), and
  \<open>js_join sep xs\<close> is \<^verbatim>\<open>xs.join(sep)\<close>.
\<close>

fun js_split :: "char \<Rightarrow> string \<Rightarrow> string list" where
  "js_split sep [] = [[]]"
| "js_split sep (c # cs) =
     (if c = sep then [] # js_split sep cs
      else (case js_split sep cs of [] \<Rightarrow> [[c]] | p # ps \<Rightarrow> (c # p) # ps))"

fun js_join :: "char \<Rightarrow> string list \<Rightarrow> string" where
  "js_join sep [] = []"
| "js_join sep [x] = x"
| "js_join sep (x # y # ys) = x @ sep # js_join sep (y # ys)"

text \<open>
  The characters below 256 that \<^verbatim>\<open>trim()\<close> strips: TAB, LF, VT, FF, CR, space and the
  no-break space. \<^verbatim>\<open>s.trim()\<close> is the empty (falsy) string exactly when every character
  of \<open>s\<close> is one of them.
\<close>

definition js_whitespace :: "char \<Rightarrow> bool" where
  "js_whitespace c = (c \<in> set [CHR 0x09, CHR 0x0A, CHR 0x0B, CHR 0x0C, CHR 0x0D, CHR 0x20, CHR 0xA0])"

definition trim_is_empty :: "string \<Rightarrow> bool" where
  "trim_is_empty s = list_all js_whitespace s"

section \<open>Regular expressions: a backtracking matcher\<close>

text \<open>
  The patterns of the source are written as terms of \<open>re\<close>. \<open>Atom P\<close> consumes one
  character satisfying \<open>P\<close>; \<open>Bol\<close> and \<open>Eol\<close> are \<^verbatim>\<open>^\<close> and \<^verbatim>\<open>$\<close> without the
  multiline flag; \<open>Star\<close> is the greedy \<^verbatim>\<open>*\<close>; \<open>Group k\<close> is the k-th capturing group.

  A matcher state is the input that is still to be read together with the captures made
  so far. \<open>ms r s st\<close> lists every way in which \<open>r\<close> can match from state \<open>st\<close> inside
  the whole input \<open>s\<close>, in the priority order of a backtracking matcher: the first element
  is the match that JavaScript reports. A greedy star prefers one more iteration to
  stopping, and an iteration that consumes nothing is rejected.
\<close>

type_synonym caps = "(nat \<times> string) list"
type_synonym mstate = "string \<times> caps"

datatype re =
    Atom "char \<Rightarrow> bool"
  | Bol
  | Eol
  | Eps
  | Seq re re
  | Alt re re
  | Star re
  | Group nat re

primrec star_n :: "(mstate \<Rightarrow> mstate list) \<Rightarrow> nat \<Rightarrow> mstate \<Rightarrow> mstate list" where
  "star_n f 0 st = [st]"
| "star_n f (Suc n) st =
     concat (map (star_n f n) (filter (\<lambda>st'. length (fst st') < length (fst st)) (f st))) @ [st]"

primrec ms :: "re \<Rightarrow> string \<Rightarrow> mstate \<Rightarrow> mstate list" where
  "ms (Atom P) s st =
     (case fst st of [] \<Rightarrow> [] | c # cs \<Rightarrow> if P c then [(cs, snd st)] else [])"
| "ms Bol s st = (if length (fst st) = length s then [st] else [])"
| "ms Eol s st = (if fst st = [] then [st] else [])"
| "ms Eps s st = [st]"
| "ms (Seq a b) s st = concat (map (ms b s) (ms a s st))"
| "ms (Alt a b) s st = ms a s st @ ms b s st"
| "ms (Star a) s st = star_n (ms a s) (length (fst st)) st"
| "ms (Group k a) s st =
     map (\<lambda>st'. (fst st', (k, take (length (fst st) - length (fst st')) (fst st)) # snd st'))
       (ms a s st)"

definition Plus :: "re \<Rightarrow> re" where
  "Plus r = Seq r (Star r)"

definition Opt :: "re \<Rightarrow> re" where
  "Opt r = Alt r Eps"

definition Lit :: "char \<Rightarrow> re" where
  "Lit c = Atom (\<lambda>x. x = c)"

text \<open>A letter under the \<^verbatim>\<open>i\<close> flag: the lower-case or the upper-case form.\<close>

definition LitCI :: "char \<Rightarrow> char \<Rightarrow> re" where
  "LitCI lo up = Atom (\<lambda>x. x = lo \<or> x = up)"

fun seqs :: "re list \<Rightarrow> re" where
  "seqs [] = Eps"
| "seqs [r] = r"
| "seqs (r # rs) = Seq r (seqs rs)"

text \<open>
  \<^verbatim>\<open>.\<close> matches every character except the line terminators (LF and CR below 256);
  \<^verbatim>\<open>\w\<close> is \<^verbatim>\<open>[A-Za-z0-9_]\<close>, which the \<^verbatim>\<open>i\<close> flag leaves unchanged below 256.
\<close>

definition dotChar :: "char \<Rightarrow> bool" where
  "dotChar c = (c \<noteq> CHR 0x0A \<and> c \<noteq> CHR 0x0D)"

definition wordChar :: "char \<Rightarrow> bool" where
  "wordChar c =
     (c \<in> set ''abcdefghijklmnopqrstuvwxyzABCDEFGHIJKLMNOPQRSTUVWXYZ0123456789_'')"

text \<open>
  \<open>search r s pre cur\<close> tries the pattern at the current position and then at each later
  one, as \<^verbatim>\<open>RegExp.prototype.exec\<close> does; \<open>pre\<close> is the input skipped so far. The result
  is the text before the match, the matched text, the text after it and the captures.
\<close>

fun search :: "re \<Rightarrow> string \<Rightarrow> string \<Rightarrow> string \<Rightarrow> (string \<times> string \<times> string \<times> caps) option" where
  "search r s pre cur =
     (case ms r s (cur, []) of
        st # _ \<Rightarrow> Some (pre, take (length cur - length (fst st)) cur, fst st, snd st)
      | [] \<Rightarrow> (case cur of [] \<Rightarrow> None | c # cs \<Rightarrow> search r s (pre @ [c]) cs))"

declare search.simps [simp del]

definition re_exec :: "re \<Rightarrow> string \<Rightarrow> (string \<times> string \<times> string \<times> caps) option" where
  "re_exec r s = search r s [] s"

text \<open>\<^verbatim>\<open>s.match(r)\<close> for a pattern without the \<^verbatim>\<open>g\<close> flag: the captures, or \<open>None\<close> for null.\<close>

definition js_match :: "re \<Rightarrow> string \<Rightarrow> caps option" where
  "js_match r s = map_option (\<lambda>(pre, mid, post, c). c) (re_exec r s)"

text \<open>
  \<open>grp m k\<close> is \<^verbatim>\<open>m[k] || ''\<close>: the text of group \<open>k\<close>, or the empty string when the
  group took no part in the match.
\<close>

definition grp :: "caps \<Rightarrow> nat \<Rightarrow> string" where
  "grp m k = (case map_of m k of None \<Rightarrow> [] | Some v \<Rightarrow> v)"

definition js_test :: "re \<Rightarrow> string \<Rightarrow> bool" where
  "js_test r s = (re_exec r s \<noteq> None)"

text \<open>\<^verbatim>\<open>s.replace(r, repl)\<close> without the \<^verbatim>\<open>g\<close> flag replaces the first match only.\<close>

definition js_replace :: "re \<Rightarrow> string \<Rightarrow> string \<Rightarrow> string" where
  "js_replace r repl s =
     (case re_exec r s of None \<Rightarrow> s | Some (pre, mid, post, c) \<Rightarrow> pre @ repl @ post)"

text \<open>
  With the \<^verbatim>\<open>g\<close> flag every match is replaced, scanning from left to right; after an
  empty match the scan moves on by one character, which is copied.
\<close>

function replace_from :: "re \<Rightarrow> string \<Rightarrow> string \<Rightarrow> string \<Rightarrow> string" where
  "replace_from r repl s cur =
     (case ms r s (cur, []) of
        st # _ \<Rightarrow>
          if length (fst st) < length cur then repl @ replace_from r repl s (fst st)
          else repl @ (case cur of [] \<Rightarrow> [] | c # cs \<Rightarrow> c # replace_from r repl s cs)
      | [] \<Rightarrow> (case cur of [] \<Rightarrow> [] | c # cs \<Rightarrow> c # replace_from r repl s cs))"
  by pat_completeness auto
termination
  by (relation "measure (\<lambda>(r, repl, s, cur). length cur)") auto

definition js_replace_all :: "re \<Rightarrow> string \<Rightarrow> string \<Rightarrow> string" where
  "js_replace_all r repl s = replace_from r repl s s"

section \<open>Path resolution: the patterns of \<open>getEntry\<close>\<close>

text \<open>\<^verbatim>\<open>/^([^:]+):\/(\/.*)\/?/i\<close>\<close>

definition typeRe :: re where
  "typeRe =
     seqs [Bol, Group 1 (Plus (Atom (\<lambda>c. c \<noteq> CHR '':''))), Lit CHR '':'', Lit CHR ''/'',
           Group 2 (seqs [Lit CHR ''/'', Star (Atom dotChar)]), Opt (Lit CHR ''/'')]"

text \<open>\<^verbatim>\<open>/s3.*/i\<close>, \<^verbatim>\<open>/adl.*/i\<close>, \<^verbatim>\<open>/abfs.*/i\<close> and \<^verbatim>\<open>/ofs.*/i\<close>\<close>

definition s3Re :: re where
  "s3Re = seqs [LitCI CHR ''s'' CHR ''S'', Lit CHR ''3'', Star (Atom dotChar)]"

definition adlRe :: re where
  "adlRe =
     seqs [LitCI CHR ''a'' CHR ''A'', LitCI CHR ''d'' CHR ''D'', LitCI CHR ''l'' CHR ''L'',
           Star (Atom dotChar)]"

definition abfsRe :: re where
  "abfsRe =
     seqs [LitCI CHR ''a'' CHR ''A'', LitCI CHR ''b'' CHR ''B'', LitCI CHR ''f'' CHR ''F'',
           LitCI CHR ''s'' CHR ''S'', Star (Atom dotChar)]"

definition ofsRe :: re where
  "ofsRe =
     seqs [LitCI CHR ''o'' CHR ''O'', LitCI CHR ''f'' CHR ''F'', LitCI CHR ''s'' CHR ''S'',
           Star (Atom dotChar)]"

text \<open>\<^verbatim>\<open>/^([^:]+):\/(\/((\w+)@)?[\w]+([\-\.]{1}\w+)*\.[\w]*)?(\/.*)?\/?/i\<close>\<close>

definition azureRe :: re where
  "azureRe =
     seqs [Bol, Group 1 (Plus (Atom (\<lambda>c. c \<noteq> CHR '':''))), Lit CHR '':'', Lit CHR ''/'',
           Opt (Group 2
             (seqs [Lit CHR ''/'',
                    Opt (Group 3 (seqs [Group 4 (Plus (Atom wordChar)), Lit CHR ''@''])),
                    Plus (Atom wordChar),
                    Star (Group 5
                      (seqs [Atom (\<lambda>c. c = CHR ''-'' \<or> c = CHR ''.''), Plus (Atom wordChar)])),
                    Lit CHR ''.'',
                    Star (Atom wordChar)])),
           Opt (Group 6 (seqs [Lit CHR ''/'', Star (Atom dotChar)])),
           Opt (Lit CHR ''/'')]"

text \<open>\<^verbatim>\<open>/(?:^\/)|(?:\/$)/g\<close>\<close>

definition trimSlashRe :: re where
  "trimSlashRe = Alt (Seq Bol (Lit CHR ''/'')) (Seq (Lit CHR ''/'') Eol)"

text \<open>\<^verbatim>\<open>/\/$/\<close>, used by the constructor\<close>

definition endSlashRe :: re where
  "endSlashRe = Seq (Lit CHR ''/'') Eol"

text \<open>
  The storage type of \<open>getEntry\<close>: the scheme found in the path, otherwise the type
  passed by the caller, otherwise \<^verbatim>\<open>'hdfs'\<close>; then the four replacements in the order of
  the source. \<open>typeMatch[1]\<close> and \<open>typeMatch[2]\<close> take part in every match of \<open>typeRe\<close>.
\<close>

definition canonicalType :: "string \<Rightarrow> string" where
  "canonicalType t =
     js_replace ofsRe ''ofs'' (js_replace abfsRe ''abfs''
       (js_replace adlRe ''adls'' (js_replace s3Re ''s3'' t)))"

definition resolveType :: "string \<Rightarrow> string option \<Rightarrow> string" where
  "resolveType path type =
     canonicalType
       (case js_match typeRe path of
          Some typeMatch \<Rightarrow> grp typeMatch 1
        | None \<Rightarrow> (case type of None \<Rightarrow> ''hdfs'' | Some t \<Rightarrow> if t = [] then ''hdfs'' else t))"

text \<open>
  The segment list that \<open>getEntry\<close> hands to \<open>loadDeep\<close> (the reassigned \<open>path\<close>), for
  the canonical type \<open>type\<close>.
\<close>

definition pathSegments :: "string \<Rightarrow> string \<Rightarrow> string list" where
  "pathSegments type path =
     (if type = ''abfs'' \<or> type = ''adls'' then
        (case js_match azureRe path of
           None \<Rightarrow> js_split CHR ''/'' (js_replace_all trimSlashRe [] path)
         | Some azureMatch \<Rightarrow>
             (let p = js_split CHR ''/'' (js_replace_all trimSlashRe [] (grp azureMatch 6))
              in if grp azureMatch 4 \<noteq> [] then grp azureMatch 4 # p else p))
      else
        js_split CHR ''/''
          (js_replace_all trimSlashRe []
            (case js_match typeRe path of Some typeMatch \<Rightarrow> grp typeMatch 2 | None \<Rightarrow> path)))"

section \<open>The entry tree\<close>

text \<open>
  A file record of a listing (\<open>definition\<close> in the source) has a name and a type,
  \<^verbatim>\<open>'file'\<close> or \<^verbatim>\<open>'dir'\<close>. The \<open>parent\<close> reference of an entry is only read for the
  immutable name and path of the ancestors, so it is kept as the chain of these.
\<close>

record file_definition =
  name :: string
  type :: string

datatype ancestor =
  Ancestor (anc_name: string) (anc_path: string) (anc_parent: "ancestor option")

text \<open>
  The fields of an \<open>AssistStorageEntry\<close>; \<open>source\<close> is \<^verbatim>\<open>source.type\<close>, the only part of
  the connector that the entry reads. The observables that only serve the display
  (\<open>preview\<close>, \<open>open\<close>, \<open>contextPopoverVisible\<close>, \<open>abfsPath\<close>) are left out.
\<close>

record entry_fields =
  source :: string
  originalType :: "string option"
  "definition" :: file_definition
  parent :: "ancestor option"
  rootPath :: string
  path :: string
  currentPage :: nat
  hasMorePages :: bool
  filterText :: string
  loaded :: bool
  loading :: bool
  loadingMore :: bool
  errorText :: "string option"
  hasErrors :: bool

datatype AssistStorageEntry =
  AssistStorageEntry (props: entry_fields) (entries: "AssistStorageEntry list")

definition upd :: "(entry_fields \<Rightarrow> entry_fields) \<Rightarrow> AssistStorageEntry \<Rightarrow> AssistStorageEntry" where
  "upd f self = AssistStorageEntry (f (props self)) (entries self)"

definition set_entries :: "AssistStorageEntry list \<Rightarrow> AssistStorageEntry \<Rightarrow> AssistStorageEntry" where
  "set_entries es self = AssistStorageEntry (props self) es"

definition asAncestor :: "AssistStorageEntry \<Rightarrow> ancestor" where
  "asAncestor self =
     Ancestor (name (definition (props self))) (path (props self)) (parent (props self))"

text \<open>The constructor: the path is the parent's path, a slash where needed, and the name.\<close>

definition newEntry ::
  "string \<Rightarrow> string option \<Rightarrow> string \<Rightarrow> file_definition \<Rightarrow> ancestor option \<Rightarrow> AssistStorageEntry" where
  "newEntry src orig rp file par =
     AssistStorageEntry
       \<lparr> source = src, originalType = orig, definition = file, parent = par, rootPath = rp,
         path =
           (case par of
              None \<Rightarrow> []
            | Some a \<Rightarrow>
                if anc_path a \<noteq> ''/'' \<and> \<not> js_test endSlashRe (anc_path a)
                then anc_path a @ ''/'' else anc_path a) @ name file,
         currentPage = 1, hasMorePages = True, filterText = [], loaded = False,
         loading = False, loadingMore = False, errorText = None, hasErrors = False \<rparr>
       []"

text \<open>The entry that both callbacks build for a file of a listing of \<open>self\<close>.\<close>

definition childEntry :: "AssistStorageEntry \<Rightarrow> file_definition \<Rightarrow> AssistStorageEntry" where
  "childEntry self file =
     newEntry (source (props self)) (originalType (props self)) (rootPath (props self)) file
       (Some (asAncestor self))"

text \<open>
  \<open>getHierarchy\<close>: the loop walks up the parent chain pushing names, the name of the
  root split at the slashes; the result is reversed at the end.
\<close>

fun hierarchyLoop :: "ancestor option \<Rightarrow> string list \<Rightarrow> string list" where
  "hierarchyLoop None parts = parts"
| "hierarchyLoop (Some (Ancestor n p par)) parts =
     hierarchyLoop par
       (if par = None \<and> n \<noteq> [] then parts @ rev (filter (\<lambda>x. x \<noteq> []) (js_split CHR ''/'' n))
        else if n \<noteq> [] then parts @ [n]
        else parts)"

definition getHierarchy :: "AssistStorageEntry \<Rightarrow> string list" where
  "getHierarchy self = rev (hierarchyLoop (Some (asAncestor self)) [])"

section \<open>The listing interface\<close>

text \<open>
  \<open>TYPE_SPECIFICS[type].apiHelperFetchFunction\<close>; for a type outside the table the
  lookup is \<^verbatim>\<open>undefined\<close> and reading its property throws a TypeError.
\<close>

definition TYPE_SPECIFICS :: "string \<Rightarrow> string option" where
  "TYPE_SPECIFICS =
     map_of [(''adls'', ''fetchAdlsPath''), (''abfs'', ''fetchAbfsPath''),
             (''hdfs'', ''fetchHdfsPath''), (''s3'', ''fetchS3Path''), (''ofs'', ''fetchOfsPath'')]"

definition PAGE_SIZE :: nat where
  "PAGE_SIZE = 100"

record request =
  req_function :: string
  req_pageSize :: nat
  req_page :: nat
  req_filter :: "string option"
  req_pathParts :: "string list"
  req_rootPath :: "string option"

text \<open>
  A response is what the fetch function passes to \<open>successCallback\<close> (the files, the
  \<open>next_page_number\<close> of the page, \<open>None\<close> when it is not a number, and
  \<open>s3_listing_not_allowed\<close>) or to \<open>errorCallback\<close>.
\<close>

datatype response =
    Success (files: "file_definition list") (next_page_number: "nat option")
      (s3_listing_not_allowed: "string option")
  | Failure string

text \<open>
  The fetch functions belong to \<open>apiHelper\<close>, outside this file: the backend is a
  parameter, any function from the number of requests made before and the request to the
  response, and every request made is recorded with the method that made it. A request is
  answered before anything else happens to the tree: the model is the sequential one, in
  which no two operations are in flight together.
\<close>

datatype caller = LoadEntries | FetchMore

type_synonym backend = "nat \<Rightarrow> request \<Rightarrow> response"
type_synonym world = "(caller \<times> request) list"

text \<open>
  How a method ended: through the success callback, through the error callback, by the
  early \<^verbatim>\<open>return\<close> that calls nothing, or by throwing.
\<close>

datatype completion = SuccessCallback | ErrorCallback | Returned | TypeError

definition mkRequest :: "string \<Rightarrow> AssistStorageEntry \<Rightarrow> string option \<Rightarrow> request" where
  "mkRequest fn self rp =
     \<lparr> req_function = fn, req_pageSize = PAGE_SIZE, req_page = currentPage (props self),
       req_filter =
         (if trim_is_empty (filterText (props self)) then None else Some (filterText (props self))),
       req_pathParts = getHierarchy self, req_rootPath = rp \<rparr>"

definition notDot :: "file_definition \<Rightarrow> bool" where
  "notDot file = (name file \<noteq> ''.'' \<and> name file \<noteq> ''..'')"

text \<open>\<^verbatim>\<open>data.page.next_page_number > self.currentPage\<close>\<close>

definition morePages :: "nat option \<Rightarrow> nat \<Rightarrow> bool" where
  "morePages next cur = (case next of None \<Rightarrow> False | Some n \<Rightarrow> cur < n)"

text \<open>\<^verbatim>\<open>!!data.s3_listing_not_allowed\<close>\<close>

definition truthy :: "string option \<Rightarrow> bool" where
  "truthy v = (case v of None \<Rightarrow> False | Some t \<Rightarrow> t \<noteq> [])"

definition loadEntries ::
  "backend \<Rightarrow> world \<Rightarrow> AssistStorageEntry \<Rightarrow> world \<times> AssistStorageEntry \<times> completion" where
  "loadEntries be log self =
     (if loading (props self) then (log, self, Returned)
      else
        let self1 = upd (\<lambda>p. p\<lparr>loading := True, hasErrors := False\<rparr>) self in
        case TYPE_SPECIFICS (source (props self1)) of
          None \<Rightarrow> (log, self1, TypeError)
        | Some fn \<Rightarrow>
            let req = mkRequest fn self1 (Some (rootPath (props self1))) in
            (case be (length log) req of
               Success fs next s3 \<Rightarrow>
                 (log @ [(LoadEntries, req)],
                  upd (\<lambda>p. p\<lparr>hasMorePages := morePages next (currentPage p), loaded := True,
                              loading := False, hasErrors := truthy s3, errorText := s3\<rparr>)
                    (set_entries (map (childEntry self1) (filter notDot fs)) self1),
                  SuccessCallback)
             | Failure txt \<Rightarrow>
                 (log @ [(LoadEntries, req)],
                  upd (\<lambda>p. p\<lparr>hasErrors := True, errorText := Some txt, loading := False\<rparr>) self1,
                  ErrorCallback)))"

definition fetchMore ::
  "backend \<Rightarrow> world \<Rightarrow> AssistStorageEntry \<Rightarrow> world \<times> AssistStorageEntry \<times> completion" where
  "fetchMore be log self =
     (if \<not> hasMorePages (props self) \<or> loadingMore (props self) then (log, self, Returned)
      else
        let self1 = upd (\<lambda>p. p\<lparr>currentPage := currentPage p + 1, loadingMore := True,
                                  hasErrors := False\<rparr>) self in
        case TYPE_SPECIFICS (source (props self1)) of
          None \<Rightarrow> (log, self1, TypeError)
        | Some fn \<Rightarrow>
            let req = mkRequest fn self1 None in
            (case be (length log) req of
               Success fs next s3 \<Rightarrow>
                 (log @ [(FetchMore, req)],
                  upd (\<lambda>p. p\<lparr>hasMorePages := morePages next (currentPage p), loadingMore := False\<rparr>)
                    (set_entries (entries self1 @ map (childEntry self1) (filter notDot fs)) self1),
                  SuccessCallback)
             | Failure txt \<Rightarrow>
                 (log @ [(FetchMore, req)], upd (\<lambda>p. p\<lparr>hasErrors := True\<rparr>) self1, ErrorCallback)))"

section \<open>The deep walk\<close>

text \<open>
  \<^verbatim>\<open>new RegExp('^' + this.rootPath, '')\<close> compiles a pattern from the text of the root
  path. \<^verbatim>\<open>RegExp\<close> is a built-in of the language, not code of this file, and its pattern
  language is much larger than the patterns written out above, so the constructor is a
  parameter of the walk: \<open>RegExp src\<close> is \<open>None\<close> when the constructor throws a
  SyntaxError for the source text \<open>src\<close>, and otherwise the compiled pattern, which
  gives for a subject the index and the length of its first match, if it has one.
  \<open>delete_match r s\<close> is \<^verbatim>\<open>s.replace(r, '')\<close> for a pattern without the \<^verbatim>\<open>g\<close> flag:
  the first match is deleted.
\<close>

type_synonym regexp = "string \<Rightarrow> (nat \<times> nat) option"
type_synonym regexp_constructor = "string \<Rightarrow> regexp option"

definition delete_match :: "regexp \<Rightarrow> string \<Rightarrow> string" where
  "delete_match r s = (case r s of None \<Rightarrow> s | Some (i, n) \<Rightarrow> take i s @ drop (i + n) s)"

text \<open>
  The first step of \<open>loadDeep\<close> on a non-empty list: with a non-empty root path the
  pattern is compiled (\<open>None\<close>: the SyntaxError), the folders are joined, the match of
  the pattern is deleted, and the rest is split again. An empty root path is falsy, and
  the folders stay as they are.
\<close>

definition relativeFolders ::
  "regexp_constructor \<Rightarrow> string \<Rightarrow> string list \<Rightarrow> string list option" where
  "relativeFolders RegExp rp folders =
     (if rp = [] then Some folders
      else
        (case RegExp (CHR ''^'' # rp) of
           None \<Rightarrow> None
         | Some r \<Rightarrow> Some (js_split CHR ''/'' (delete_match r (js_join CHR ''/'' folders)))))"

text \<open>
  \<open>findNextAndLoadDeep\<close>, the inner function of \<open>loadDeep\<close>, searching the entries of
  \<open>self\<close> for \<open>nextName\<close> with \<open>loadedPages\<close> as its counter. \<open>localeCompare\<close> depends
  on the locale of the browser and is a parameter. The function returns what it decides:
  \<open>Descend i\<close> when exactly one entry, the \<open>i\<close>-th, has the name (the source then calls
  \<open>loadDeep\<close> on it, which \<open>loadDeep\<close> below does); \<open>Done\<close> when it calls
  \<open>callback(self)\<close>, directly or from the error callback of \<open>fetchMore\<close>; \<open>Stalled\<close>
  when \<open>fetchMore\<close> returned without a request, so that no callback will ever run;
  \<open>Thrown\<close> when \<open>fetchMore\<close> threw.
\<close>

datatype decision = Descend nat | Done | Stalled | Thrown

function findNextAndLoadDeep ::
  "(string \<Rightarrow> string \<Rightarrow> int) \<Rightarrow> backend \<Rightarrow> string \<Rightarrow> world \<Rightarrow> AssistStorageEntry \<Rightarrow> nat
     \<Rightarrow> world \<times> AssistStorageEntry \<times> nat \<times> decision" where
  "findNextAndLoadDeep localeCompare be nextName log self loadedPages =
     (let foundEntry =
            filter (\<lambda>i. name (definition (props (entries self ! i))) = nextName)
              [0..<length (entries self)];
          passedAlphabetically =
            (length (entries self) > 0 \<and>
             localeCompare (name (definition (props (last (entries self))))) nextName > 0)
      in
        if length foundEntry = 1 then (log, self, loadedPages, Descend (hd foundEntry))
        else if \<not> passedAlphabetically \<and> hasMorePages (props self) \<and> loadedPages < 50 then
          (case fetchMore be log self of
             (log', self', SuccessCallback) \<Rightarrow>
               findNextAndLoadDeep localeCompare be nextName log' self' (loadedPages + 1)
           | (log', self', ErrorCallback) \<Rightarrow> (log', self', loadedPages + 1, Done)
           | (log', self', Returned) \<Rightarrow> (log', self', loadedPages + 1, Stalled)
           | (log', self', TypeError) \<Rightarrow> (log', self', loadedPages + 1, Thrown))
        else (log, self, loadedPages, Done))"
  by pat_completeness auto
termination
  by (relation "measure (\<lambda>(lc, be, nextName, log, self, loadedPages). 50 - loadedPages)") auto

text \<open>
  The result of a walk: \<open>Resolved p\<close> when the callback is called, with the entry reached
  by following the child indices \<open>p\<close> from the entry the walk started at; \<open>NeverCalled\<close>
  when the walk ends without calling the callback; \<open>Threw\<close> when it ends by the
  TypeError of a source type without fetch function; \<open>SyntaxError\<close> when it ends by the
  SyntaxError of the \<^verbatim>\<open>RegExp\<close> constructor.
\<close>

datatype walk_result = Resolved "nat list" | NeverCalled | Threw | SyntaxError

fun under :: "nat \<Rightarrow> walk_result \<Rightarrow> walk_result" where
  "under i (Resolved p) = Resolved (i # p)"
| "under i r = r"

function loadDeep ::
  "regexp_constructor \<Rightarrow> (string \<Rightarrow> string \<Rightarrow> int) \<Rightarrow> backend \<Rightarrow> world \<Rightarrow> AssistStorageEntry
     \<Rightarrow> string list \<Rightarrow> world \<times> AssistStorageEntry \<times> walk_result" where
  "loadDeep RegExp localeCompare be log self folders =
     (if length folders = 0 then (log, self, Resolved [])
      else
        (case relativeFolders RegExp (rootPath (props self)) folders of
           None \<Rightarrow> (log, self, SyntaxError)
         | Some folders1 \<Rightarrow>
             (case (if \<not> loaded (props self) then loadEntries be log self
                    else (log, self, SuccessCallback)) of
                (log1, self1, Returned) \<Rightarrow> (log1, self1, NeverCalled)
              | (log1, self1, TypeError) \<Rightarrow> (log1, self1, Threw)
              | (log1, self1, _) \<Rightarrow>
                  (case findNextAndLoadDeep localeCompare be (hd folders1) log1 self1 0 of
                     (log2, self2, n, Descend i) \<Rightarrow>
                       (case loadDeep RegExp localeCompare be log2 (entries self2 ! i)
                               (tl folders1) of
                          (log3, child, r) \<Rightarrow>
                            (log3, set_entries ((entries self2)[i := child]) self2, under i r))
                   | (log2, self2, n, Done) \<Rightarrow> (log2, self2, Resolved [])
                   | (log2, self2, n, Stalled) \<Rightarrow> (log2, self2, NeverCalled)
                   | (log2, self2, n, Thrown) \<Rightarrow> (log2, self2, Threw)))))"
  by pat_completeness auto

text \<open>
  Termination of the walk, for every constructor: deleting a match never makes the joined
  text longer, and the folders that remain after the first one join to a shorter text.
\<close>

lemma js_split_not_Nil: "js_split c s \<noteq> []"
  by (induction s) (auto split: list.splits)

lemma js_join_split: "js_join c (js_split c s) = s"
proof (induction s)
  case Nil
  then show ?case by simp
next
  case (Cons a s)
  obtain p ps where ps: "js_split c s = p # ps"
    using js_split_not_Nil [of c s] by (cases "js_split c s") auto
  show ?case using Cons ps by (cases ps) auto
qed

lemma js_join_tl_less:
  "xs \<noteq> [] \<Longrightarrow> tl xs \<noteq> [] \<Longrightarrow> length (js_join c (tl xs)) < length (js_join c xs)"
proof -
  assume "xs \<noteq> []" "tl xs \<noteq> []"
  then obtain x y ys where "xs = x # y # ys"
    by (cases xs; cases "tl xs") auto
  then show ?thesis by simp
qed

lemma delete_match_length: "length (delete_match r s) \<le> length s"
  by (auto simp: delete_match_def split: option.splits)

lemma relativeFolders_length:
  "relativeFolders RegExp rp folders = Some f1 \<Longrightarrow> folders \<noteq> [] \<Longrightarrow>
     f1 \<noteq> [] \<and> length (js_join CHR ''/'' f1) \<le> length (js_join CHR ''/'' folders)"
  by (auto simp: relativeFolders_def js_split_not_Nil js_join_split delete_match_length
      split: if_splits option.splits)

text \<open>The measure of the walk: the length of the joined folders, plus one when there are any.\<close>

definition foldersMeasure :: "string list \<Rightarrow> nat" where
  "foldersMeasure folders = (if folders = [] then 0 else Suc (length (js_join CHR ''/'' folders)))"

lemma foldersMeasure_tl:
  "relativeFolders RegExp rp folders = Some f1 \<Longrightarrow> folders \<noteq> [] \<Longrightarrow>
     foldersMeasure (tl f1) < foldersMeasure folders"
  using relativeFolders_length [of RegExp rp folders f1] js_join_tl_less [of f1 "CHR ''/''"]
  by (auto simp: foldersMeasure_def)

termination loadDeep
  by (relation "measure (\<lambda>(RegExp, lc, be, log, self, folders). foldersMeasure folders)")
     (auto simp: foldersMeasure_tl)


text \<open>
  The theorems about the walk hold for every constructor. Where a walk is evaluated on
  concrete data, the constructor is \<open>engineOf known\<close>: it compiles each source listed in
  \<open>known\<close> to the pattern written beside it, a term of \<open>re\<close> whose first match is found
  by the matcher above, and throws for a source that is not listed.
\<close>

definition compiled :: "re \<Rightarrow> regexp" where
  "compiled r s = map_option (\<lambda>(pre, mid, post, c). (length pre, length mid)) (re_exec r s)"

definition engineOf :: "(string \<times> re) list \<Rightarrow> regexp_constructor" where
  "engineOf known src = map_option compiled (map_of known src)"

section \<open>Facts about the matcher\<close>

lemma star_n_shorter:
  assumes "\<And>st st'. st' \<in> set (f st) \<Longrightarrow> length (fst st') \<le> length (fst st)"
  shows "st' \<in> set (star_n f n st) \<Longrightarrow> length (fst st') \<le> length (fst st)"
proof (induction n arbitrary: st st')
  case 0
  then show ?case by simp
next
  case (Suc n)
  from Suc.prems show ?case
  proof (auto, goal_cases)
    case (1 a b)
    then show ?case using Suc.IH [of st' "(a, b)"] by auto
  qed
qed

lemma ms_shorter: "st' \<in> set (ms r s st) \<Longrightarrow> length (fst st') \<le> length (fst st)"
proof (induction r arbitrary: st st')
  case (Atom P)
  then show ?case by (cases "fst st") (auto split: if_splits)
next
  case (Seq a b)
  from Seq.prems obtain mid where m: "mid \<in> set (ms a s st)" "st' \<in> set (ms b s mid)"
    by auto
  from Seq.IH(1) [OF m(1)] Seq.IH(2) [OF m(2)] show ?case by simp
next
  case (Star a)
  then show ?case using star_n_shorter [of "ms a s"] by auto
qed (auto split: if_splits)

lemma search_length:
  "search r s pre cur = Some (a, m, b, c) \<Longrightarrow> length a + length b \<le> length pre + length cur"
proof (induction r s pre cur rule: search.induct)
  case (1 r s pre cur)
  from 1(2) have eq:
    "(case ms r s (cur, []) of
        st # _ \<Rightarrow> Some (pre, take (length cur - length (fst st)) cur, fst st, snd st)
      | [] \<Rightarrow> (case cur of [] \<Rightarrow> None | c # cs \<Rightarrow> search r s (pre @ [c]) cs)) =
     Some (a, m, b, c)"
    by (subst (asm) search.simps)
  show ?case
  proof (cases "ms r s (cur, [])")
    case Nil
    then show ?thesis using 1(1) eq by (cases cur) auto
  next
    case (Cons st sts)
    then have "st \<in> set (ms r s (cur, []))" by simp
    from ms_shorter [OF this] Cons eq show ?thesis by auto
  qed
qed

lemma js_replace_length: "length (js_replace r [] s) \<le> length s"
  using search_length [of r s "[]" s]
  by (auto simp: js_replace_def re_exec_def split: option.splits)


text \<open>
  \<open>first_ms\<close> is the match a backtracking matcher reports: the first of the list.
  \<open>replace_at\<close> is \<open>js_replace\<close> with the scan at any position, \<open>matchesWhole r t\<close>
  says that the pattern \<open>r\<close> matches the text \<open>t\<close> from its first to its last character,
  and \<open>eats_line r\<close> that a match of \<open>r\<close> in a text without line terminators runs to the
  end of the text.
\<close>

definition first_ms :: "re \<Rightarrow> string \<Rightarrow> mstate \<Rightarrow> mstate option" where
  "first_ms r s st = (case ms r s st of [] \<Rightarrow> None | x # _ \<Rightarrow> Some x)"

lemma search_first:
  "search r s pre cur =
     (case first_ms r s (cur, []) of
        Some st \<Rightarrow> Some (pre, take (length cur - length (fst st)) cur, fst st, snd st)
      | None \<Rightarrow> (case cur of [] \<Rightarrow> None | c # cs \<Rightarrow> search r s (pre @ [c]) cs))"
  by (subst search.simps) (simp add: first_ms_def split: list.splits)

lemma first_Seq:
  "first_ms a s st = Some m \<Longrightarrow> first_ms b s m = Some e \<Longrightarrow> first_ms (Seq a b) s st = Some e"
  by (auto simp: first_ms_def split: list.splits)

lemma first_Seq_None:
  "first_ms a s st = None \<Longrightarrow> first_ms (Seq a b) s st = None"
  by (auto simp: first_ms_def split: list.splits)

lemma first_Group:
  "first_ms a s st = Some m \<Longrightarrow>
   first_ms (Group k a) s st =
     Some (fst m, (k, take (length (fst st) - length (fst m)) (fst st)) # snd m)"
  by (auto simp: first_ms_def split: list.splits)

lemma first_Atom:
  "first_ms (Atom P) s (cur, c) =
     (case cur of [] \<Rightarrow> None | x # xs \<Rightarrow> if P x then Some (xs, c) else None)"
  by (auto simp: first_ms_def split: list.splits)

lemma first_Seq_Atom:
  "first_ms (Seq (Atom P) b) s (cur, c) =
     (case cur of [] \<Rightarrow> None | x # xs \<Rightarrow> if P x then first_ms b s (xs, c) else None)"
  by (auto simp: first_ms_def split: list.splits)

lemma first_Seq_Bol:
  "first_ms (Seq Bol b) s (cur, c) = (if length cur = length s then first_ms b s (cur, c) else None)"
  by (auto simp: first_ms_def split: list.splits)

lemma first_Bol: "first_ms Bol s (s, c) = Some (s, c)"
  by (simp add: first_ms_def)

lemma first_Bol_not: "length cur \<noteq> length s \<Longrightarrow> first_ms Bol s (cur, c) = None"
  by (simp add: first_ms_def)

lemma star_step_first:
  assumes f: "\<And>xs c. f (xs, c) = (case xs of [] \<Rightarrow> [] | x # xs' \<Rightarrow> if P x then [(xs', c)] else [])"
  shows "length xs \<le> n \<Longrightarrow> \<exists>more. star_n f n (xs, c) = (dropWhile P xs, c) # more"
proof (induction n arbitrary: xs)
  case 0
  then show ?case by simp
next
  case (Suc n)
  show ?case
  proof (cases xs)
    case Nil
    then show ?thesis by (simp add: f)
  next
    case (Cons x xs')
    then have "length xs' \<le> n" using Suc.prems by simp
    from Suc.IH [OF this] obtain more where
      "star_n f n (xs', c) = (dropWhile P xs', c) # more" by blast
    then show ?thesis using Cons by (simp add: f)
  qed
qed

lemma star_atom_first:
  "\<exists>more. star_n (ms (Atom P) s) (length xs) (xs, c) = (dropWhile P xs, c) # more"
  by (rule star_step_first) (simp_all split: list.splits)

lemma first_Star_atom: "first_ms (Star (Atom P)) s (xs, c) = Some (dropWhile P xs, c)"
  using star_atom_first [of P s xs c] by (auto simp: first_ms_def)

lemma first_Plus_atom:
  "first_ms (Plus (Atom P)) s (xs, c) =
     (case xs of [] \<Rightarrow> None | x # xs' \<Rightarrow> if P x then Some (dropWhile P xs', c) else None)"
proof (cases xs)
  case Nil
  then show ?thesis by (simp add: first_ms_def Plus_def)
next
  case (Cons x xs')
  show ?thesis
  proof (cases "P x")
    case True
    then have "first_ms (Atom P) s (xs, c) = Some (xs', c)" using Cons by (simp add: first_Atom)
    from first_Seq [OF this first_Star_atom] show ?thesis using Cons True by (simp add: Plus_def)
  next
    case False
    then show ?thesis using Cons by (simp add: first_ms_def Plus_def)
  qed
qed

lemma first_Opt_atom:
  "first_ms (Opt (Atom P)) s (xs, c) =
     Some (case xs of [] \<Rightarrow> (xs, c) | x # xs' \<Rightarrow> if P x then (xs', c) else (xs, c))"
  by (auto simp: first_ms_def Opt_def split: list.splits)

lemma first_Opt_skip:
  "zs = [] \<or> \<not> P (hd zs) \<Longrightarrow> first_ms (Opt (Atom P)) s (zs, c) = Some (zs, c)"
  by (cases zs) (auto simp: first_Opt_atom)

lemma dropWhile_dot_slash:
  "dropWhile dotChar rest = [] \<or> \<not> (\<lambda>x. x = CHR ''/'') (hd (dropWhile dotChar rest))"
proof (cases "dropWhile dotChar rest")
  case Nil
  then show ?thesis by blast
next
  case (Cons x xs)
  then have "\<not> dotChar x" using hd_dropWhile [of dotChar rest] by simp
  then have "x \<noteq> CHR ''/''" by (auto simp: dotChar_def)
  then show ?thesis using Cons by simp
qed

lemma dropWhile_notColon:
  "CHR '':'' \<notin> set tok \<Longrightarrow> dropWhile (\<lambda>c. c \<noteq> CHR '':'') (tok @ CHR '':'' # rest) = CHR '':'' # rest"
  by (induction tok) auto

lemma typeRe_scheme:
  assumes "tok \<noteq> []" "CHR '':'' \<notin> set tok"
  shows "js_match typeRe (tok @ ''://'' @ rest) =
           Some [(2, CHR ''/'' # takeWhile dotChar rest), (1, tok)]"
proof -
  let ?s = "tok @ ''://'' @ rest"
  obtain t ts where tok: "tok = t # ts" using assms(1) by (cases tok) auto
  have g1: "first_ms (Group 1 (Plus (Atom (\<lambda>c. c \<noteq> CHR '':'')))) ?s (?s, []) =
              Some (''://'' @ rest, [(1, tok)])"
    using assms(2) dropWhile_notColon [of ts "''//'' @ rest"]
    by (subst first_Group [where m = "(''://'' @ rest, [])"]) (auto simp: first_Plus_atom tok)
  have dw: "length (dropWhile dotChar rest) \<le> length rest"
    by (simp add: length_dropWhile_le)
  have tk: "take (length rest - length (dropWhile dotChar rest)) rest = takeWhile dotChar rest"
    by (metis add_diff_cancel_right' append_eq_conv_conj length_append takeWhile_dropWhile_id)
  have g2: "first_ms (Group 2 (seqs [Lit CHR ''/'', Star (Atom dotChar)])) ?s (CHR ''/'' # rest, [(1, tok)]) =
              Some (dropWhile dotChar rest, [(2, CHR ''/'' # takeWhile dotChar rest), (1, tok)])"
  proof -
    have "first_ms (seqs [Lit CHR ''/'', Star (Atom dotChar)]) ?s (CHR ''/'' # rest, [(1, tok)]) =
            Some (dropWhile dotChar rest, [(1, tok)])"
      by (simp add: Lit_def first_Seq_Atom first_Star_atom)
    from first_Group [OF this, of 2] show ?thesis using dw tk by (simp add: Suc_diff_le)
  qed
  have op: "first_ms (Opt (Lit CHR ''/'')) ?s (dropWhile dotChar rest, c) = Some (dropWhile dotChar rest, c)" for c
    unfolding Lit_def by (rule first_Opt_skip) (rule dropWhile_dot_slash)
  have "first_ms typeRe ?s (?s, []) =
          Some (dropWhile dotChar rest, [(2, CHR ''/'' # takeWhile dotChar rest), (1, tok)])"
    unfolding typeRe_def seqs.simps first_Seq_Bol
    apply (simp only: simp_thms if_True)
    apply (rule first_Seq [OF g1])
    apply (simp add: Lit_def first_Seq_Atom)
    apply (rule first_Seq [where m = "(dropWhile dotChar rest, [(2, CHR ''/'' # takeWhile dotChar rest), (1, tok)])"])
    using g2 apply (simp add: Lit_def)
    using op apply (simp add: Lit_def)
    done
  then show ?thesis
    by (simp add: js_match_def re_exec_def search_first)
qed

definition replace_at :: "re \<Rightarrow> string \<Rightarrow> string \<Rightarrow> string \<Rightarrow> string \<Rightarrow> string" where
  "replace_at r repl s pre cur =
     (case search r s pre cur of None \<Rightarrow> pre @ cur | Some (a, m, b, c) \<Rightarrow> a @ repl @ b)"

definition matchesWhole :: "re \<Rightarrow> string \<Rightarrow> bool" where
  "matchesWhole r t = (\<exists>st \<in> set (ms r t (t, [])). fst st = [])"

definition eats_line :: "re \<Rightarrow> bool" where
  "eats_line r =
     (\<forall>s cur c st. list_all dotChar cur \<longrightarrow> first_ms r s (cur, c) = Some st \<longrightarrow> fst st = [])"

lemma eats_lineD:
  "eats_line r \<Longrightarrow> list_all dotChar cur \<Longrightarrow> first_ms r s (cur, c) = Some st \<Longrightarrow> fst st = []"
  unfolding eats_line_def by blast

lemma js_replace_at: "js_replace r repl s = replace_at r repl s [] s"
  by (simp add: js_replace_def replace_at_def re_exec_def split: option.splits)

lemma replace_at_skip:
  "first_ms r s (x # xs, []) = None \<Longrightarrow>
   replace_at r repl s pre (x # xs) = replace_at r repl s (pre @ [x]) xs"
  by (simp add: replace_at_def search_first [of r s pre "x # xs"] split: option.splits)

lemma replace_at_hit:
  "first_ms r s (cur, []) = Some st \<Longrightarrow> replace_at r repl s pre cur = pre @ repl @ fst st"
  by (cases st) (simp add: replace_at_def search_first [of r s pre cur])

lemma replace_at_Nil_miss:
  "first_ms r s ([], []) = None \<Longrightarrow> replace_at r repl s pre [] = pre"
  by (simp add: replace_at_def search_first [of r s pre "[]"])

lemma replace_at_dots:
  assumes "eats_line r" "list_all dotChar repl"
  shows "list_all dotChar cur \<Longrightarrow>
         \<exists>u. replace_at r repl s pre cur = pre @ u \<and> list_all dotChar u"
proof (induction cur arbitrary: pre)
  case Nil
  show ?case
  proof (cases "first_ms r s ([], [])")
    case None
    then show ?thesis by (simp add: replace_at_Nil_miss)
  next
    case (Some st)
    then have "fst st = []" using eats_lineD [OF assms(1), of "[]"] by simp
    then show ?thesis using replace_at_hit [OF Some] assms(2) by simp
  qed
next
  case (Cons x xs)
  show ?case
  proof (cases "first_ms r s (x # xs, [])")
    case None
    from Cons.IH [of "pre @ [x]"] Cons.prems obtain u where
      "replace_at r repl s (pre @ [x]) xs = (pre @ [x]) @ u" "list_all dotChar u" by auto
    then show ?thesis using replace_at_skip [OF None] Cons.prems by simp
  next
    case (Some st)
    then have "fst st = []" using eats_lineD [OF assms(1) Cons.prems] by simp
    then show ?thesis using replace_at_hit [OF Some] assms(2) by simp
  qed
qed

lemma replace_at_head:
  assumes "eats_line r" "list_all dotChar (y # repl)" "list_all dotChar (x # xs)"
  shows "\<exists>x' u. replace_at r (y # repl) s pre (x # xs) = pre @ x' # u \<and> (x' = x \<or> x' = y)
           \<and> list_all dotChar u"
proof (cases "first_ms r s (x # xs, [])")
  case None
  from replace_at_dots [OF assms(1,2), of xs s "pre @ [x]"] assms(3) obtain u where
    "replace_at r (y # repl) s (pre @ [x]) xs = (pre @ [x]) @ u" "list_all dotChar u" by auto
  then show ?thesis using replace_at_skip [OF None] by simp
next
  case (Some st)
  then have "fst st = []" using eats_lineD [OF assms(1,3)] by simp
  then show ?thesis using replace_at_hit [OF Some] assms(2) by simp
qed

lemma eats_line_s3: "eats_line s3Re"
  by (auto simp: eats_line_def s3Re_def LitCI_def Lit_def first_Seq_Atom first_Star_atom
      dropWhile_eq_Nil_conv list_all_iff split: list.splits if_splits)

lemma eats_line_adl: "eats_line adlRe"
  by (auto simp: eats_line_def adlRe_def LitCI_def Lit_def first_Seq_Atom first_Star_atom
      dropWhile_eq_Nil_conv list_all_iff split: list.splits if_splits)

lemma eats_line_abfs: "eats_line abfsRe"
  by (auto simp: eats_line_def abfsRe_def LitCI_def Lit_def first_Seq_Atom first_Star_atom
      dropWhile_eq_Nil_conv list_all_iff split: list.splits if_splits)

lemma eats_line_ofs: "eats_line ofsRe"
  by (auto simp: eats_line_def ofsRe_def LitCI_def Lit_def first_Seq_Atom first_Star_atom
      dropWhile_eq_Nil_conv list_all_iff split: list.splits if_splits)

lemma ms_Seq_Atom:
  "ms (Seq (Atom P) b) s (cur, c) =
     (case cur of [] \<Rightarrow> [] | x # xs \<Rightarrow> if P x then ms b s (xs, c) else [])"
  by (simp split: list.splits)

lemma star_step_all:
  assumes f: "\<And>xs c. f (xs, c) = (case xs of [] \<Rightarrow> [] | x # xs' \<Rightarrow> if P x then [(xs', c)] else [])"
  shows "([], c') \<in> set (star_n f n (xs, c)) \<Longrightarrow> list_all P xs"
proof (induction n arbitrary: xs)
  case 0
  then show ?case by simp
next
  case (Suc n)
  show ?case
  proof (cases xs)
    case Nil
    then show ?thesis by simp
  next
    case (Cons x xs')
    with Suc.prems have "P x \<and> ([], c') \<in> set (star_n f n (xs', c))"
      by (auto simp: f split: if_splits)
    with Suc.IH [of xs'] Cons show ?thesis by simp
  qed
qed

lemma star_atom_all:
  assumes "([], c') \<in> set (star_n (ms (Atom P) s) n (xs, c))"
  shows "list_all P xs"
proof (rule star_step_all [where f = "ms (Atom P) s", OF _ assms])
  fix ys d
  show "ms (Atom P) s (ys, d) = (case ys of [] \<Rightarrow> [] | x # xs' \<Rightarrow> if P x then [(xs', d)] else [])"
    by (simp split: list.splits)
qed

lemma star_atom_all_ms:
  "([], c') \<in> set (ms (Star (Atom P)) s (xs, c)) \<Longrightarrow> list_all P xs"
  using star_atom_all [of c' P s "length xs" xs c] by simp

lemma matchesWhole_s3:
  "matchesWhole s3Re t \<Longrightarrow>
     \<exists>c1 rest. t = c1 # CHR ''3'' # rest \<and> (c1 = CHR ''s'' \<or> c1 = CHR ''S'') \<and> list_all dotChar rest"
  apply (simp add: matchesWhole_def s3Re_def LitCI_def Lit_def ms_Seq_Atom del: ms.simps split: list.splits if_splits)
  apply (auto dest: star_atom_all_ms simp del: ms.simps)
  done

lemma matchesWhole_adl:
  "matchesWhole adlRe t \<Longrightarrow>
     \<exists>c1 c2 c3 rest. t = c1 # c2 # c3 # rest \<and> (c1 = CHR ''a'' \<or> c1 = CHR ''A'')
        \<and> (c2 = CHR ''d'' \<or> c2 = CHR ''D'') \<and> (c3 = CHR ''l'' \<or> c3 = CHR ''L'')
        \<and> list_all dotChar rest"
  apply (simp add: matchesWhole_def adlRe_def LitCI_def Lit_def ms_Seq_Atom del: ms.simps split: list.splits if_splits)
  apply (auto dest: star_atom_all_ms simp del: ms.simps)
  done

lemma matchesWhole_abfs:
  "matchesWhole abfsRe t \<Longrightarrow>
     \<exists>c1 c2 c3 c4 rest. t = c1 # c2 # c3 # c4 # rest \<and> (c1 = CHR ''a'' \<or> c1 = CHR ''A'')
        \<and> (c2 = CHR ''b'' \<or> c2 = CHR ''B'') \<and> (c3 = CHR ''f'' \<or> c3 = CHR ''F'')
        \<and> (c4 = CHR ''s'' \<or> c4 = CHR ''S'') \<and> list_all dotChar rest"
  apply (simp add: matchesWhole_def abfsRe_def LitCI_def Lit_def ms_Seq_Atom del: ms.simps split: list.splits if_splits)
  apply (auto dest: star_atom_all_ms simp del: ms.simps)
  done

lemma matchesWhole_ofs:
  "matchesWhole ofsRe t \<Longrightarrow>
     \<exists>c1 c2 c3 rest. t = c1 # c2 # c3 # rest \<and> (c1 = CHR ''o'' \<or> c1 = CHR ''O'')
        \<and> (c2 = CHR ''f'' \<or> c2 = CHR ''F'') \<and> (c3 = CHR ''s'' \<or> c3 = CHR ''S'')
        \<and> list_all dotChar rest"
  apply (simp add: matchesWhole_def ofsRe_def LitCI_def Lit_def ms_Seq_Atom del: ms.simps split: list.splits if_splits)
  apply (auto dest: star_atom_all_ms simp del: ms.simps)
  done

lemma first_s3:
  "first_ms s3Re s (cur, c) =
     (case cur of
        c1 # c2 # rest \<Rightarrow>
          if (c1 = CHR ''s'' \<or> c1 = CHR ''S'') \<and> c2 = CHR ''3'' then Some (dropWhile dotChar rest, c)
          else None
      | _ \<Rightarrow> None)"
  by (simp add: s3Re_def LitCI_def Lit_def first_Seq_Atom first_Star_atom split: list.splits)

lemma first_adl:
  "first_ms adlRe s (cur, c) =
     (case cur of
        c1 # c2 # c3 # rest \<Rightarrow>
          if (c1 = CHR ''a'' \<or> c1 = CHR ''A'') \<and> (c2 = CHR ''d'' \<or> c2 = CHR ''D'')
             \<and> (c3 = CHR ''l'' \<or> c3 = CHR ''L'')
          then Some (dropWhile dotChar rest, c) else None
      | _ \<Rightarrow> None)"
  by (simp add: adlRe_def LitCI_def Lit_def first_Seq_Atom first_Star_atom split: list.splits)

lemma first_abfs:
  "first_ms abfsRe s (cur, c) =
     (case cur of
        c1 # c2 # c3 # c4 # rest \<Rightarrow>
          if (c1 = CHR ''a'' \<or> c1 = CHR ''A'') \<and> (c2 = CHR ''b'' \<or> c2 = CHR ''B'')
             \<and> (c3 = CHR ''f'' \<or> c3 = CHR ''F'') \<and> (c4 = CHR ''s'' \<or> c4 = CHR ''S'')
          then Some (dropWhile dotChar rest, c) else None
      | _ \<Rightarrow> None)"
  by (simp add: abfsRe_def LitCI_def Lit_def first_Seq_Atom first_Star_atom split: list.splits)

lemma first_ofs:
  "first_ms ofsRe s (cur, c) =
     (case cur of
        c1 # c2 # c3 # rest \<Rightarrow>
          if (c1 = CHR ''o'' \<or> c1 = CHR ''O'') \<and> (c2 = CHR ''f'' \<or> c2 = CHR ''F'')
             \<and> (c3 = CHR ''s'' \<or> c3 = CHR ''S'')
          then Some (dropWhile dotChar rest, c) else None
      | _ \<Rightarrow> None)"
  by (simp add: ofsRe_def LitCI_def Lit_def first_Seq_Atom first_Star_atom split: list.splits)

lemma dropWhile_all: "list_all P xs \<Longrightarrow> dropWhile P xs = []"
  by (simp add: list_all_iff)

lemma canonical_s3:
  assumes "matchesWhole s3Re t"
  shows "canonicalType t = ''s3''"
proof -
  from matchesWhole_s3 [OF assms] obtain c1 rest where
    t: "t = c1 # CHR ''3'' # rest" "c1 = CHR ''s'' \<or> c1 = CHR ''S''" "list_all dotChar rest"
    by blast
  have "first_ms s3Re t (t, []) = Some ([], [])"
    using t by (auto simp: first_s3 dropWhile_all)
  from replace_at_hit [OF this, of "''s3''" "[]"] have "js_replace s3Re ''s3'' t = ''s3''"
    by (simp add: js_replace_at)
  moreover have "js_replace ofsRe ''ofs'' (js_replace abfsRe ''abfs'' (js_replace adlRe ''adls'' ''s3'')) = ''s3''"
    by code_simp
  ultimately show ?thesis by (simp add: canonicalType_def)
qed

lemma miss_s3:
  "x \<noteq> CHR ''s'' \<Longrightarrow> x \<noteq> CHR ''S'' \<Longrightarrow> first_ms s3Re s (x # xs, c) = None"
  by (simp add: first_s3 split: list.splits)

lemma miss_adl:
  "x \<noteq> CHR ''a'' \<Longrightarrow> x \<noteq> CHR ''A'' \<Longrightarrow> first_ms adlRe s (x # xs, c) = None"
  by (simp add: first_adl split: list.splits)

lemma miss_adl2:
  "y \<noteq> CHR ''d'' \<Longrightarrow> y \<noteq> CHR ''D'' \<Longrightarrow> first_ms adlRe s (x # y # xs, c) = None"
  by (simp add: first_adl split: list.splits)

lemma miss_abfs:
  "x \<noteq> CHR ''a'' \<Longrightarrow> x \<noteq> CHR ''A'' \<Longrightarrow> first_ms abfsRe s (x # xs, c) = None"
  by (simp add: first_abfs split: list.splits)

lemma canonical_adl:
  assumes "matchesWhole adlRe t"
  shows "canonicalType t = ''adls''"
proof -
  from matchesWhole_adl [OF assms] obtain c1 c2 c3 rest where
    t: "t = c1 # c2 # c3 # rest" "c1 = CHR ''a'' \<or> c1 = CHR ''A''"
       "c2 = CHR ''d'' \<or> c2 = CHR ''D''" "c3 = CHR ''l'' \<or> c3 = CHR ''L''" "list_all dotChar rest"
    by blast
  have "\<exists>u. replace_at s3Re ''s3'' t [c1, c2, c3] rest = [c1, c2, c3] @ u \<and> list_all dotChar u"
    by (rule replace_at_dots [OF eats_line_s3 _ t(5)]) (simp add: dotChar_def)
  then obtain u where u: "replace_at s3Re ''s3'' t [c1, c2, c3] rest = [c1, c2, c3] @ u"
    "list_all dotChar u" by blast
  have "replace_at s3Re ''s3'' t [] (c1 # c2 # c3 # rest) = replace_at s3Re ''s3'' t [c1, c2, c3] rest"
    using t(2,3,4) by (auto simp: replace_at_skip miss_s3)
  then have s1: "js_replace s3Re ''s3'' t = c1 # c2 # c3 # u"
    using u(1) t(1) by (simp add: js_replace_at)
  have "first_ms adlRe (c1 # c2 # c3 # u) (c1 # c2 # c3 # u, []) = Some ([], [])"
    using t(2,3,4) u(2) by (auto simp: first_adl dropWhile_all)
  from replace_at_hit [OF this, of "''adls''" "[]"]
  have "js_replace adlRe ''adls'' (c1 # c2 # c3 # u) = ''adls''" by (simp add: js_replace_at)
  moreover have "js_replace ofsRe ''ofs'' (js_replace abfsRe ''abfs'' ''adls'') = ''adls''"
    by code_simp
  ultimately show ?thesis by (simp add: canonicalType_def s1)
qed

lemma canonical_abfs:
  assumes "matchesWhole abfsRe t"
  shows "canonicalType t = ''abfs''"
proof -
  from matchesWhole_abfs [OF assms] obtain c1 c2 c3 c4 rest where
    t: "t = c1 # c2 # c3 # c4 # rest" "c1 = CHR ''a'' \<or> c1 = CHR ''A''"
       "c2 = CHR ''b'' \<or> c2 = CHR ''B''" "c3 = CHR ''f'' \<or> c3 = CHR ''F''"
       "c4 = CHR ''s'' \<or> c4 = CHR ''S''" "list_all dotChar rest"
    by blast
  have d4: "list_all dotChar (c4 # rest)" using t(5,6) by (auto simp: dotChar_def)
  have "\<exists>x' u. replace_at s3Re (CHR ''s'' # ''3'') t [c1, c2, c3] (c4 # rest) = [c1, c2, c3] @ x' # u
          \<and> (x' = c4 \<or> x' = CHR ''s'') \<and> list_all dotChar u"
    by (rule replace_at_head [OF eats_line_s3 _ d4]) (simp add: dotChar_def)
  then obtain x' u where u:
    "replace_at s3Re ''s3'' t [c1, c2, c3] (c4 # rest) = [c1, c2, c3] @ x' # u"
    "x' = c4 \<or> x' = CHR ''s''" "list_all dotChar u" by auto
  have x': "x' = CHR ''s'' \<or> x' = CHR ''S''" using u(2) t(5) by auto
  have "replace_at s3Re ''s3'' t [] (c1 # c2 # c3 # c4 # rest) =
        replace_at s3Re ''s3'' t [c1, c2, c3] (c4 # rest)"
    using t(2,3,4) by (auto simp: replace_at_skip miss_s3)
  then have s1: "js_replace s3Re ''s3'' t = c1 # c2 # c3 # x' # u"
    using u(1) t(1) by (simp add: js_replace_at)
  let ?t1 = "c1 # c2 # c3 # x' # u"
  have "\<exists>v. replace_at adlRe ''adls'' ?t1 [c1, c2, c3, x'] u = [c1, c2, c3, x'] @ v \<and> list_all dotChar v"
    by (rule replace_at_dots [OF eats_line_adl _ u(3)]) (simp add: dotChar_def)
  then obtain v where v: "replace_at adlRe ''adls'' ?t1 [c1, c2, c3, x'] u = [c1, c2, c3, x'] @ v"
    "list_all dotChar v" by blast
  have "replace_at adlRe ''adls'' ?t1 [] ?t1 = replace_at adlRe ''adls'' ?t1 [c1, c2, c3, x'] u"
    using t(2,3,4) x' by (auto simp: replace_at_skip miss_adl miss_adl2)
  then have s2: "js_replace adlRe ''adls'' ?t1 = c1 # c2 # c3 # x' # v"
    using v(1) by (simp add: js_replace_at)
  let ?t2 = "c1 # c2 # c3 # x' # v"
  have "first_ms abfsRe ?t2 (?t2, []) = Some ([], [])"
    using t(2,3,4) x' v(2) by (auto simp: first_abfs dropWhile_all)
  from replace_at_hit [OF this, of "''abfs''" "[]"]
  have s3: "js_replace abfsRe ''abfs'' ?t2 = ''abfs''" by (simp add: js_replace_at)
  have "js_replace ofsRe ''ofs'' ''abfs'' = ''abfs''" by code_simp
  then show ?thesis by (simp add: canonicalType_def s1 s2 s3)
qed

lemma canonical_ofs:
  assumes "matchesWhole ofsRe t"
  shows "canonicalType t = ''ofs''"
proof -
  from matchesWhole_ofs [OF assms] obtain c1 c2 c3 rest where
    t: "t = c1 # c2 # c3 # rest" "c1 = CHR ''o'' \<or> c1 = CHR ''O''"
       "c2 = CHR ''f'' \<or> c2 = CHR ''F''" "c3 = CHR ''s'' \<or> c3 = CHR ''S''"
       "list_all dotChar rest"
    by blast
  have d3: "list_all dotChar (c3 # rest)" using t(4,5) by (auto simp: dotChar_def)
  have "\<exists>x' u. replace_at s3Re (CHR ''s'' # ''3'') t [c1, c2] (c3 # rest) = [c1, c2] @ x' # u
          \<and> (x' = c3 \<or> x' = CHR ''s'') \<and> list_all dotChar u"
    by (rule replace_at_head [OF eats_line_s3 _ d3]) (simp add: dotChar_def)
  then obtain x' u where u:
    "replace_at s3Re ''s3'' t [c1, c2] (c3 # rest) = [c1, c2] @ x' # u"
    "x' = c3 \<or> x' = CHR ''s''" "list_all dotChar u" by auto
  have x': "x' = CHR ''s'' \<or> x' = CHR ''S''" using u(2) t(4) by auto
  have "replace_at s3Re ''s3'' t [] (c1 # c2 # c3 # rest) =
        replace_at s3Re ''s3'' t [c1, c2] (c3 # rest)"
    using t(2,3) by (auto simp: replace_at_skip miss_s3)
  then have s1: "js_replace s3Re ''s3'' t = c1 # c2 # x' # u"
    using u(1) t(1) by (simp add: js_replace_at)
  let ?t1 = "c1 # c2 # x' # u"
  have "\<exists>v. replace_at adlRe ''adls'' ?t1 [c1, c2, x'] u = [c1, c2, x'] @ v \<and> list_all dotChar v"
    by (rule replace_at_dots [OF eats_line_adl _ u(3)]) (simp add: dotChar_def)
  then obtain v where v: "replace_at adlRe ''adls'' ?t1 [c1, c2, x'] u = [c1, c2, x'] @ v"
    "list_all dotChar v" by blast
  have "replace_at adlRe ''adls'' ?t1 [] ?t1 = replace_at adlRe ''adls'' ?t1 [c1, c2, x'] u"
    using t(2,3) x' by (auto simp: replace_at_skip miss_adl)
  then have s2: "js_replace adlRe ''adls'' ?t1 = c1 # c2 # x' # v"
    using v(1) by (simp add: js_replace_at)
  let ?t2 = "c1 # c2 # x' # v"
  have "\<exists>w. replace_at abfsRe ''abfs'' ?t2 [c1, c2, x'] v = [c1, c2, x'] @ w \<and> list_all dotChar w"
    by (rule replace_at_dots [OF eats_line_abfs _ v(2)]) (simp add: dotChar_def)
  then obtain w where w: "replace_at abfsRe ''abfs'' ?t2 [c1, c2, x'] v = [c1, c2, x'] @ w"
    "list_all dotChar w" by blast
  have "replace_at abfsRe ''abfs'' ?t2 [] ?t2 = replace_at abfsRe ''abfs'' ?t2 [c1, c2, x'] v"
    using t(2,3) x' by (auto simp: replace_at_skip miss_abfs)
  then have s3: "js_replace abfsRe ''abfs'' ?t2 = c1 # c2 # x' # w"
    using w(1) by (simp add: js_replace_at)
  let ?t3 = "c1 # c2 # x' # w"
  have "first_ms ofsRe ?t3 (?t3, []) = Some ([], [])"
    using t(2,3) x' w(2) by (auto simp: first_ofs dropWhile_all)
  from replace_at_hit [OF this, of "''ofs''" "[]"]
  have s4: "js_replace ofsRe ''ofs'' ?t3 = ''ofs''" by (simp add: js_replace_at)
  show ?thesis by (simp add: canonicalType_def s1 s2 s3 s4)
qed

lemma no_scheme_hdfs: "canonicalType ''hdfs'' = ''hdfs''"
  by code_simp

lemma scheme_example_s3:
  "resolveType ''s3a://bucket/a/b'' None = ''s3''
   \<and> pathSegments ''s3'' ''s3a://bucket/a/b'' = [''bucket'', ''a'', ''b'']"
  by code_simp

lemma scheme_example_adl: "resolveType ''adl://x/y'' None = ''adls''"
  by code_simp

lemma scheme_example_hdfs:
  "js_match typeRe ''/tmp/x'' = None \<and> resolveType ''/tmp/x'' None = ''hdfs''
   \<and> pathSegments ''hdfs'' ''/tmp/x'' = [''tmp'', ''x'']"
  by code_simp

lemma scheme_witness:
  "matchesWhole s3Re ''s3a'' \<and> matchesWhole adlRe ''adl'' \<and> matchesWhole abfsRe ''abfss''
   \<and> matchesWhole ofsRe ''ofs''"
  by code_simp

section \<open>Path resolution: the examples and the scheme aliases\<close>


lemma abfs_example_groups:
  "map_option (\<lambda>m. (grp m 1, grp m 2, grp m 4, grp m 6))
     (js_match azureRe ''abfs://acct@container.dfs.core.windows.net/folder/sub'') =
   Some (''abfs'', ''/acct@container.dfs.core.windows.net'', ''acct'', ''/folder/sub'')"
  by code_simp




lemma resolveType_scheme:
  "tok \<noteq> [] \<Longrightarrow> CHR '':'' \<notin> set tok \<Longrightarrow>
     resolveType (tok @ ''://'' @ rest) hint = canonicalType tok"
  using typeRe_scheme [of tok rest] by (simp add: resolveType_def grp_def)

text \<open>
  Claim C5. A token that the pattern \<^verbatim>\<open>s3.*\<close> matches from its first to its last
  character (under the \<^verbatim>\<open>i\<close> flag of the source) is canonicalized to \<open>s3\<close>, and
  likewise \<^verbatim>\<open>adl.*\<close> to \<open>adls\<close>, \<^verbatim>\<open>abfs.*\<close> to \<open>abfs\<close> and \<^verbatim>\<open>ofs.*\<close> to
  \<open>ofs\<close>. The token is the scheme of the path when the path has one; a path in which the
  first pattern finds no scheme, resolved without a type from the caller, has the type
  \<open>hdfs\<close>. The three examples of the specification evaluate as stated.
\<close>

theorem C5_scheme_canonicalization:
  "(matchesWhole s3Re t1 \<longrightarrow> canonicalType t1 = ''s3'')
   \<and> (matchesWhole adlRe t2 \<longrightarrow> canonicalType t2 = ''adls'')
   \<and> (matchesWhole abfsRe t3 \<longrightarrow> canonicalType t3 = ''abfs'')
   \<and> (matchesWhole ofsRe t4 \<longrightarrow> canonicalType t4 = ''ofs'')
   \<and> (tok \<noteq> [] \<and> CHR '':'' \<notin> set tok \<longrightarrow>
        resolveType (tok @ ''://'' @ rest) hint = canonicalType tok)
   \<and> (js_match typeRe p = None \<longrightarrow> resolveType p None = ''hdfs'')
   \<and> resolveType ''s3a://bucket/a/b'' None = ''s3''
   \<and> pathSegments ''s3'' ''s3a://bucket/a/b'' = [''bucket'', ''a'', ''b'']
   \<and> resolveType ''adl://x/y'' None = ''adls''
   \<and> resolveType ''/tmp/x'' None = ''hdfs''
   \<and> pathSegments ''hdfs'' ''/tmp/x'' = [''tmp'', ''x'']"
proof -
  have h: "js_match typeRe p = None \<longrightarrow> resolveType p None = ''hdfs''"
    by (simp add: resolveType_def no_scheme_hdfs)
  show ?thesis
    using canonical_s3 [of t1] canonical_adl [of t2] canonical_abfs [of t3] canonical_ofs [of t4]
      resolveType_scheme [of tok rest hint] h scheme_example_s3 scheme_example_adl
      scheme_example_hdfs
    by blast
qed

theorem C5_scheme_canonicalization_witness:
  "matchesWhole s3Re ''s3a'' \<and> canonicalType ''s3a'' = ''s3''
   \<and> matchesWhole adlRe ''adl'' \<and> canonicalType ''adl'' = ''adls''
   \<and> matchesWhole abfsRe ''abfss'' \<and> canonicalType ''abfss'' = ''abfs''
   \<and> matchesWhole ofsRe ''ofs'' \<and> canonicalType ''ofs'' = ''ofs''
   \<and> resolveType (''s3n'' @ ''://'' @ ''bucket/key'') (Some ''hdfs'') = canonicalType ''s3n''
   \<and> js_match typeRe ''/user/hue'' = None \<and> resolveType ''/user/hue'' None = ''hdfs''"
proof -
  have n: "js_match typeRe ''/user/hue'' = None" by code_simp
  have c: "''s3n'' \<noteq> [] \<and> CHR '':'' \<notin> set ''s3n''" by simp
  show ?thesis
    using C5_scheme_canonicalization [of "''s3a''" "''adl''" "''abfss''" "''ofs''" "''s3n''"
        "''bucket/key''" "Some ''hdfs''" "''/user/hue''"] scheme_witness n c
    by blast
qed

section \<open>Sequences of operations on one entry\<close>

text \<open>
  \<open>runOps\<close> applies \<open>loadEntries\<close> and \<open>fetchMore\<close> to an entry in any order, each
  answered by the backend. \<open>listedFrom be k [] new\<close> reads the children off the requests
  \<open>new\<close> made from time \<open>k\<close> on: a successful \<open>loadEntries\<close> starts the list again with
  its page, a successful \<open>fetchMore\<close> appends its page, a failure changes nothing; each
  page without the entries named \<open>.\<close> and \<open>..\<close>.
\<close>

datatype op = OpLoadEntries | OpFetchMore

fun runOp :: "backend \<Rightarrow> world \<times> AssistStorageEntry \<Rightarrow> op \<Rightarrow> world \<times> AssistStorageEntry" where
  "runOp be (log, self) OpLoadEntries = (case loadEntries be log self of (log', self', c) \<Rightarrow> (log', self'))"
| "runOp be (log, self) OpFetchMore = (case fetchMore be log self of (log', self', c) \<Rightarrow> (log', self'))"

definition runOps :: "backend \<Rightarrow> world \<times> AssistStorageEntry \<Rightarrow> op list \<Rightarrow> world \<times> AssistStorageEntry" where
  "runOps be st ops = foldl (runOp be) st ops"

fun listedFrom :: "backend \<Rightarrow> nat \<Rightarrow> file_definition list \<Rightarrow> world \<Rightarrow> file_definition list" where
  "listedFrom be k acc [] = acc"
| "listedFrom be k acc ((c, req) # rest) =
     listedFrom be (Suc k)
       (case be k req of
          Success fs next s3 \<Rightarrow>
            (case c of LoadEntries \<Rightarrow> filter notDot fs | FetchMore \<Rightarrow> acc @ filter notDot fs)
        | Failure txt \<Rightarrow> acc)
       rest"

lemma props_upd [simp]: "props (upd f self) = f (props self)"
  by (simp add: upd_def)

lemma entries_upd [simp]: "entries (upd f self) = entries self"
  by (simp add: upd_def)

lemma props_set_entries [simp]: "props (set_entries es self) = props self"
  by (simp add: set_entries_def)

lemma entries_set_entries [simp]: "entries (set_entries es self) = es"
  by (simp add: set_entries_def)

lemma props_childEntry [simp]:
  "definition (props (childEntry self file)) = file"
  "source (props (childEntry self file)) = source (props self)"
  "rootPath (props (childEntry self file)) = rootPath (props self)"
  "loaded (props (childEntry self file)) = False"
  "loading (props (childEntry self file)) = False"
  "loadingMore (props (childEntry self file)) = False"
  "hasMorePages (props (childEntry self file)) = True"
  "currentPage (props (childEntry self file)) = 1"
  "entries (childEntry self file) = []"
  by (simp_all add: childEntry_def newEntry_def)

definition sameIdentity :: "AssistStorageEntry \<Rightarrow> AssistStorageEntry \<Rightarrow> bool" where
  "sameIdentity a b =
     (source (props a) = source (props b) \<and> originalType (props a) = originalType (props b)
      \<and> definition (props a) = definition (props b) \<and> parent (props a) = parent (props b)
      \<and> rootPath (props a) = rootPath (props b) \<and> path (props a) = path (props b))"

lemma childEntry_cong: "sameIdentity a b \<Longrightarrow> childEntry a = childEntry b"
  by (rule ext) (simp add: sameIdentity_def childEntry_def asAncestor_def)

lemma getHierarchy_cong: "sameIdentity a b \<Longrightarrow> getHierarchy a = getHierarchy b"
  by (simp add: sameIdentity_def getHierarchy_def asAncestor_def)

lemma mkRequest_cong:
  "sameIdentity a b \<Longrightarrow> currentPage (props a) = currentPage (props b) \<Longrightarrow>
   filterText (props a) = filterText (props b) \<Longrightarrow> mkRequest fn a rp = mkRequest fn b rp"
  by (simp add: mkRequest_def getHierarchy_cong)

text \<open>The request that \<open>loadEntries\<close> makes, and the one that \<open>fetchMore\<close> makes.\<close>

definition loadRequest :: "string \<Rightarrow> AssistStorageEntry \<Rightarrow> request" where
  "loadRequest fn self = mkRequest fn self (Some (rootPath (props self)))"

definition moreRequest :: "string \<Rightarrow> AssistStorageEntry \<Rightarrow> request" where
  "moreRequest fn self = (mkRequest fn self None)\<lparr>req_page := currentPage (props self) + 1\<rparr>"

lemma loadEntries_busy: "loading (props self) \<Longrightarrow> loadEntries be log self = (log, self, Returned)"
  by (simp add: loadEntries_def)

lemma loadEntries_throw:
  "\<not> loading (props self) \<Longrightarrow> TYPE_SPECIFICS (source (props self)) = None \<Longrightarrow>
   loadEntries be log self =
     (log, upd (\<lambda>p. p\<lparr>loading := True, hasErrors := False\<rparr>) self, TypeError)"
  by (simp add: loadEntries_def Let_def)

lemma loadEntries_success:
  "\<not> loading (props self) \<Longrightarrow> TYPE_SPECIFICS (source (props self)) = Some fn \<Longrightarrow>
   be (length log) (loadRequest fn self) = Success fs next s3 \<Longrightarrow>
   loadEntries be log self =
     (log @ [(LoadEntries, loadRequest fn self)],
      set_entries (map (childEntry self) (filter notDot fs))
        (upd (\<lambda>p. p\<lparr>hasMorePages := morePages next (currentPage p), loaded := True,
                    loading := False, hasErrors := truthy s3, errorText := s3\<rparr>) self),
      SuccessCallback)"
proof -
  let ?s1 = "upd (\<lambda>p. p\<lparr>loading := True, hasErrors := False\<rparr>) self"
  have si: "sameIdentity ?s1 self" by (simp add: sameIdentity_def)
  have rq: "mkRequest fn ?s1 (Some (rootPath (props self))) = loadRequest fn self"
    unfolding loadRequest_def by (rule mkRequest_cong [OF si]) simp_all
  assume a: "\<not> loading (props self)" "TYPE_SPECIFICS (source (props self)) = Some fn"
    "be (length log) (loadRequest fn self) = Success fs next s3"
  show ?thesis
    using a rq childEntry_cong [OF si]
    by (simp add: loadEntries_def Let_def upd_def set_entries_def)
qed

lemma loadEntries_failure:
  "\<not> loading (props self) \<Longrightarrow> TYPE_SPECIFICS (source (props self)) = Some fn \<Longrightarrow>
   be (length log) (loadRequest fn self) = Failure txt \<Longrightarrow>
   loadEntries be log self =
     (log @ [(LoadEntries, loadRequest fn self)],
      upd (\<lambda>p. p\<lparr>hasErrors := True, errorText := Some txt, loading := False\<rparr>) self,
      ErrorCallback)"
proof -
  let ?s1 = "upd (\<lambda>p. p\<lparr>loading := True, hasErrors := False\<rparr>) self"
  have si: "sameIdentity ?s1 self" by (simp add: sameIdentity_def)
  have rq: "mkRequest fn ?s1 (Some (rootPath (props self))) = loadRequest fn self"
    unfolding loadRequest_def by (rule mkRequest_cong [OF si]) simp_all
  assume a: "\<not> loading (props self)" "TYPE_SPECIFICS (source (props self)) = Some fn"
    "be (length log) (loadRequest fn self) = Failure txt"
  show ?thesis
    using a rq by (simp add: loadEntries_def Let_def upd_def)
qed

lemma fetchMore_idle:
  "\<not> hasMorePages (props self) \<or> loadingMore (props self) \<Longrightarrow>
   fetchMore be log self = (log, self, Returned)"
  by (auto simp: fetchMore_def)

lemma fetchMore_throw:
  "hasMorePages (props self) \<Longrightarrow> \<not> loadingMore (props self) \<Longrightarrow>
   TYPE_SPECIFICS (source (props self)) = None \<Longrightarrow>
   fetchMore be log self =
     (log, upd (\<lambda>p. p\<lparr>currentPage := currentPage p + 1, loadingMore := True,
                        hasErrors := False\<rparr>) self, TypeError)"
  by (simp add: fetchMore_def Let_def)

lemma moreRequest_eq:
  "mkRequest fn (upd (\<lambda>p. p\<lparr>currentPage := Suc (currentPage p), loadingMore := True,
                            hasErrors := False\<rparr>) self) None = moreRequest fn self"
  by (simp add: mkRequest_def moreRequest_def getHierarchy_def asAncestor_def)

lemma fetchMore_success:
  "hasMorePages (props self) \<Longrightarrow> \<not> loadingMore (props self) \<Longrightarrow>
   TYPE_SPECIFICS (source (props self)) = Some fn \<Longrightarrow>
   be (length log) (moreRequest fn self) = Success fs next s3 \<Longrightarrow>
   fetchMore be log self =
     (log @ [(FetchMore, moreRequest fn self)],
      set_entries (entries self @ map (childEntry self) (filter notDot fs))
        (upd (\<lambda>p. p\<lparr>currentPage := currentPage p + 1, loadingMore := False,
                    hasErrors := False,
                    hasMorePages := morePages next (currentPage p + 1)\<rparr>) self),
      SuccessCallback)"
proof -
  let ?s1 = "upd (\<lambda>p. p\<lparr>currentPage := currentPage p + 1, loadingMore := True,
                          hasErrors := False\<rparr>) self"
  have si: "sameIdentity ?s1 self" by (simp add: sameIdentity_def)
  assume a: "hasMorePages (props self)" "\<not> loadingMore (props self)"
    "TYPE_SPECIFICS (source (props self)) = Some fn"
    "be (length log) (moreRequest fn self) = Success fs next s3"
  show ?thesis
    using a childEntry_cong [OF si]
    by (simp add: fetchMore_def Let_def moreRequest_eq) (simp add: upd_def set_entries_def)
qed

lemma fetchMore_failure:
  "hasMorePages (props self) \<Longrightarrow> \<not> loadingMore (props self) \<Longrightarrow>
   TYPE_SPECIFICS (source (props self)) = Some fn \<Longrightarrow>
   be (length log) (moreRequest fn self) = Failure txt \<Longrightarrow>
   fetchMore be log self =
     (log @ [(FetchMore, moreRequest fn self)],
      upd (\<lambda>p. p\<lparr>currentPage := currentPage p + 1, loadingMore := True, hasErrors := True\<rparr>) self,
      ErrorCallback)"
  by (simp add: fetchMore_def Let_def moreRequest_eq) (simp add: upd_def)

lemma listedFrom_snoc:
  "listedFrom be k acc (xs @ [(c, req)]) =
     (case be (k + length xs) req of
        Success fs next s3 \<Rightarrow>
          (case c of LoadEntries \<Rightarrow> filter notDot fs
           | FetchMore \<Rightarrow> listedFrom be k acc xs @ filter notDot fs)
      | Failure txt \<Rightarrow> listedFrom be k acc xs)"
proof (induction xs arbitrary: k acc)
  case Nil
  then show ?case by (simp split: response.splits caller.splits)
next
  case (Cons x xs)
  then show ?case by (cases x) (simp split: response.splits caller.splits)
qed

definition defsOf :: "AssistStorageEntry \<Rightarrow> file_definition list" where
  "defsOf self = map (\<lambda>e. definition (props e)) (entries self)"

definition listingInv :: "backend \<Rightarrow> world \<Rightarrow> world \<times> AssistStorageEntry \<Rightarrow> bool" where
  "listingInv be log0 st =
     (\<exists>new. fst st = log0 @ new \<and> defsOf (snd st) = listedFrom be (length log0) [] new
        \<and> list_all notDot (defsOf (snd st)))"

lemma defsOf_upd [simp]: "defsOf (upd f self) = defsOf self"
  by (simp add: defsOf_def)

lemma defsOf_set_entries [simp]:
  "defsOf (set_entries es self) = map (\<lambda>e. definition (props e)) es"
  by (simp add: defsOf_def)

lemma defs_children [simp]: "map (\<lambda>e. definition (props e)) (map (childEntry self) fs) = fs"
  by (induction fs) simp_all

lemma defs_child_comp [simp]: "(\<lambda>e. definition (props e)) \<circ> childEntry self = id"
  by (rule ext) simp

lemma list_all_filter_self [simp]: "list_all P (filter P xs)"
  by (induction xs) simp_all

lemma listingInv_loadEntries:
  assumes "listingInv be log0 (log, self)"
  shows "listingInv be log0 (case loadEntries be log self of (log', self', c) \<Rightarrow> (log', self'))"
proof -
  from assms obtain new where n: "log = log0 @ new"
    "defsOf self = listedFrom be (length log0) [] new" "list_all notDot (defsOf self)"
    by (auto simp: listingInv_def)
  show ?thesis
  proof (cases "loading (props self)")
    case True
    then show ?thesis using assms by (simp add: loadEntries_busy)
  next
    case False
    show ?thesis
    proof (cases "TYPE_SPECIFICS (source (props self))")
      case None
      then show ?thesis using False n by (simp add: loadEntries_throw listingInv_def)
    next
      case (Some fn)
      show ?thesis
      proof (cases "be (length log) (loadRequest fn self)")
        case (Success fs nxt s3)
        have "listedFrom be (length log0) [] (new @ [(LoadEntries, loadRequest fn self)]) =
                filter notDot fs"
          using Success n(1) by (simp add: listedFrom_snoc)
        then show ?thesis
          using loadEntries_success [where be = be and log = log, OF False Some Success] n(1)
          by (simp add: listingInv_def)
      next
        case (Failure msg)
        have "listedFrom be (length log0) [] (new @ [(LoadEntries, loadRequest fn self)]) =
                listedFrom be (length log0) [] new"
          using Failure n(1) by (simp add: listedFrom_snoc)
        then show ?thesis
          using loadEntries_failure [where be = be and log = log, OF False Some Failure] n
          by (simp add: listingInv_def)
      qed
    qed
  qed
qed

lemma listingInv_fetchMore:
  assumes "listingInv be log0 (log, self)"
  shows "listingInv be log0 (case fetchMore be log self of (log', self', c) \<Rightarrow> (log', self'))"
proof -
  from assms obtain new where n: "log = log0 @ new"
    "defsOf self = listedFrom be (length log0) [] new" "list_all notDot (defsOf self)"
    by (auto simp: listingInv_def)
  show ?thesis
  proof (cases "\<not> hasMorePages (props self) \<or> loadingMore (props self)")
    case True
    then show ?thesis using assms by (simp add: fetchMore_idle)
  next
    case False
    then have g: "hasMorePages (props self)" "\<not> loadingMore (props self)" by auto
    show ?thesis
    proof (cases "TYPE_SPECIFICS (source (props self))")
      case None
      then show ?thesis using g n by (simp add: fetchMore_throw listingInv_def)
    next
      case (Some fn)
      show ?thesis
      proof (cases "be (length log) (moreRequest fn self)")
        case (Success fs nxt s3)
        have "listedFrom be (length log0) [] (new @ [(FetchMore, moreRequest fn self)]) =
                listedFrom be (length log0) [] new @ filter notDot fs"
          using Success n(1) by (simp add: listedFrom_snoc)
        then show ?thesis
          using fetchMore_success [where be = be and log = log, OF g Some Success] n
          by (simp add: listingInv_def) (simp add: defsOf_def)
      next
        case (Failure msg)
        have "listedFrom be (length log0) [] (new @ [(FetchMore, moreRequest fn self)]) =
                listedFrom be (length log0) [] new"
          using Failure n(1) by (simp add: listedFrom_snoc)
        then show ?thesis
          using fetchMore_failure [where be = be and log = log, OF g Some Failure] n
          by (simp add: listingInv_def)
      qed
    qed
  qed
qed

lemma listingInv_runOp: "listingInv be log0 st \<Longrightarrow> listingInv be log0 (runOp be st op)"
  by (cases st; cases op) (simp_all add: listingInv_loadEntries listingInv_fetchMore)

lemma listingInv_runOps: "listingInv be log0 st \<Longrightarrow> listingInv be log0 (runOps be st ops)"
  unfolding runOps_def by (induction ops arbitrary: st) (simp_all add: listingInv_runOp)

lemma listingInv_new: "listingInv be log (log, newEntry src orig rp file par)"
  by (simp add: listingInv_def defsOf_def newEntry_def)

declare findNextAndLoadDeep.simps [simp del]
declare loadDeep.simps [simp del]

definition dirNamed :: "string \<Rightarrow> file_definition" where
  "dirNamed n = \<lparr>name = n, type = ''dir''\<rparr>"

definition s3Root :: AssistStorageEntry where
  "s3Root = newEntry ''s3'' (Some ''s3a'') [] (dirNamed []) None"

definition deniedAfterThree :: backend where
  "deniedAfterThree k req =
     (if k = 0 then Success [dirNamed ''a''] (Some 2) None
      else if k = 1 then Success [dirNamed ''b''] (Some 3) None
      else if k = 2 then Success [dirNamed ''c''] (Some 4) None
      else Success [] None (Some ''forbidden''))"

definition afterThree :: "world \<times> AssistStorageEntry" where
  "afterThree = runOps deniedAfterThree ([], s3Root) [OpLoadEntries, OpFetchMore, OpFetchMore]"

definition afterOne :: "world \<times> AssistStorageEntry" where
  "afterOne = runOps deniedAfterThree ([], s3Root) [OpLoadEntries]"

text \<open>
  Claim C2, as stated, fails. After three pages (\<open>a\<close>, \<open>b\<close>, \<open>c\<close>) a response
  with \<open>s3_listing_not_allowed\<close> and no files, received by \<open>loadEntries\<close>, sets the
  error flag but replaces the three children by the empty list; received by \<open>fetchMore\<close>,
  it keeps the children but leaves the error flag and the error text unset.
\<close>

theorem C2_counterexample:
  "map name (defsOf (snd afterThree)) = [''a'', ''b'', ''c'']
   \<and> entries (snd (runOp deniedAfterThree afterThree OpLoadEntries)) = []
   \<and> hasErrors (props (snd (runOp deniedAfterThree afterThree OpLoadEntries)))
   \<and> map name (defsOf (snd (runOp deniedAfterThree afterThree OpFetchMore))) = [''a'', ''b'', ''c'']
   \<and> \<not> hasErrors (props (snd (runOp deniedAfterThree afterThree OpFetchMore)))
   \<and> errorText (props (snd (runOp deniedAfterThree afterThree OpFetchMore))) = None"
  by code_simp

text \<open>
  Claim C2, amended. When the response to \<open>loadEntries\<close> carries a non-empty
  \<open>s3_listing_not_allowed\<close>, the success callback runs, the error flag is set, the error
  text is that message, and the children are the filtered files of that response (the
  children of before are replaced, as on every load). When \<open>fetchMore\<close> succeeds, with a
  soft error or without, the children of before stay and the filtered files are appended.
\<close>

theorem C2_soft_error_amended:
  "(\<not> loading (props self) \<and> TYPE_SPECIFICS (source (props self)) = Some fn
      \<and> be (length log) (loadRequest fn self) = Success fs nx (Some msg) \<and> msg \<noteq> []
     \<longrightarrow> (\<exists>log' self'. loadEntries be log self = (log', self', SuccessCallback)
            \<and> hasErrors (props self') \<and> errorText (props self') = Some msg
            \<and> entries self' = map (childEntry self) (filter notDot fs)))
   \<and> (hasMorePages (props self2) \<and> \<not> loadingMore (props self2)
      \<and> TYPE_SPECIFICS (source (props self2)) = Some fn2
      \<and> be2 (length log2) (moreRequest fn2 self2) = Success fs2 nx2 s3
     \<longrightarrow> (\<exists>log' self'. fetchMore be2 log2 self2 = (log', self', SuccessCallback)
            \<and> entries self' = entries self2 @ map (childEntry self2) (filter notDot fs2)))"
proof (intro conjI impI)
  assume a: "\<not> loading (props self) \<and> TYPE_SPECIFICS (source (props self)) = Some fn
      \<and> be (length log) (loadRequest fn self) = Success fs nx (Some msg) \<and> msg \<noteq> []"
  then have "loadEntries be log self =
     (log @ [(LoadEntries, loadRequest fn self)],
      set_entries (map (childEntry self) (filter notDot fs))
        (upd (\<lambda>p. p\<lparr>hasMorePages := morePages nx (currentPage p), loaded := True,
                    loading := False, hasErrors := truthy (Some msg), errorText := Some msg\<rparr>) self),
      SuccessCallback)"
    by (intro loadEntries_success [where be = be and log = log]) simp_all
  then show "\<exists>log' self'. loadEntries be log self = (log', self', SuccessCallback)
            \<and> hasErrors (props self') \<and> errorText (props self') = Some msg
            \<and> entries self' = map (childEntry self) (filter notDot fs)"
    using a by (simp add: truthy_def)
next
  assume a: "hasMorePages (props self2) \<and> \<not> loadingMore (props self2)
      \<and> TYPE_SPECIFICS (source (props self2)) = Some fn2
      \<and> be2 (length log2) (moreRequest fn2 self2) = Success fs2 nx2 s3"
  then have "fetchMore be2 log2 self2 =
     (log2 @ [(FetchMore, moreRequest fn2 self2)],
      set_entries (entries self2 @ map (childEntry self2) (filter notDot fs2))
        (upd (\<lambda>p. p\<lparr>currentPage := currentPage p + 1, loadingMore := False,
                    hasErrors := False,
                    hasMorePages := morePages nx2 (currentPage p + 1)\<rparr>) self2),
      SuccessCallback)"
    by (intro fetchMore_success [where be = be2 and log = log2]) simp_all
  then show "\<exists>log' self'. fetchMore be2 log2 self2 = (log', self', SuccessCallback)
            \<and> entries self' = entries self2 @ map (childEntry self2) (filter notDot fs2)"
    by simp
qed

theorem C2_soft_error_amended_witness:
  "\<not> loading (props (snd afterThree))
   \<and> TYPE_SPECIFICS (source (props (snd afterThree))) = Some ''fetchS3Path''
   \<and> deniedAfterThree (length (fst afterThree)) (loadRequest ''fetchS3Path'' (snd afterThree)) =
       Success [] None (Some ''forbidden'')
   \<and> (\<exists>log' self'. loadEntries deniedAfterThree (fst afterThree) (snd afterThree) =
         (log', self', SuccessCallback)
       \<and> hasErrors (props self') \<and> errorText (props self') = Some ''forbidden''
       \<and> entries self' = map (childEntry (snd afterThree)) (filter notDot []))
   \<and> hasMorePages (props (snd afterOne)) \<and> \<not> loadingMore (props (snd afterOne))
   \<and> deniedAfterThree (length (fst afterOne)) (moreRequest ''fetchS3Path'' (snd afterOne)) =
       Success [dirNamed ''b''] (Some 3) None
   \<and> (\<exists>log' self'. fetchMore deniedAfterThree (fst afterOne) (snd afterOne) =
         (log', self', SuccessCallback)
       \<and> entries self' = entries (snd afterOne)
            @ map (childEntry (snd afterOne)) (filter notDot [dirNamed ''b'']))"
proof -
  have h1: "\<not> loading (props (snd afterThree))" by code_simp
  have h2: "TYPE_SPECIFICS (source (props (snd afterThree))) = Some ''fetchS3Path''" by code_simp
  have h3: "deniedAfterThree (length (fst afterThree)) (loadRequest ''fetchS3Path'' (snd afterThree)) =
       Success [] None (Some ''forbidden'')" by code_simp
  have h4: "hasMorePages (props (snd afterOne)) \<and> \<not> loadingMore (props (snd afterOne))" by code_simp
  have h5: "TYPE_SPECIFICS (source (props (snd afterOne))) = Some ''fetchS3Path''" by code_simp
  have h6: "deniedAfterThree (length (fst afterOne)) (moreRequest ''fetchS3Path'' (snd afterOne)) =
       Success [dirNamed ''b''] (Some 3) None" by code_simp
  have h7: "''forbidden'' \<noteq> []" by simp
  show ?thesis
    using C2_soft_error_amended [of "snd afterThree" "''fetchS3Path''" deniedAfterThree
        "fst afterThree" "[]" None "''forbidden''" "snd afterOne" "''fetchS3Path''"
        deniedAfterThree "fst afterOne" "[dirNamed ''b'']" "Some 3" None]
      h1 h2 h3 h4 h5 h6 h7
    by blast
qed

lemma notDot_names:
  "list_all notDot (map (\<lambda>e. definition (props e)) es) =
   list_all (\<lambda>e. name (definition (props e)) \<noteq> ''.'' \<and> name (definition (props e)) \<noteq> ''..'') es"
  by (induction es) (simp_all add: notDot_def)

text \<open>
  \<open>fetchedPages be k log\<close> is the list that claim C8 speaks of: the concatenation, in
  the order of arrival, of the pages fetched by the requests of \<open>log\<close> (made from time
  \<open>k\<close> on), each page without the entries named \<open>.\<close> and \<open>..\<close>.
\<close>

fun fetchedPages :: "backend \<Rightarrow> nat \<Rightarrow> world \<Rightarrow> file_definition list" where
  "fetchedPages be k [] = []"
| "fetchedPages be k ((c, req) # rest) =
     (case be k req of Success fs next s3 \<Rightarrow> filter notDot fs | Failure txt \<Rightarrow> [])
       @ fetchedPages be (Suc k) rest"

lemma listedFrom_fetchMore_only:
  "list_all (\<lambda>e. fst e = FetchMore) new \<Longrightarrow>
     listedFrom be k acc new = acc @ fetchedPages be k new"
proof (induction new arbitrary: k acc)
  case Nil
  then show ?case by simp
next
  case (Cons e new)
  then show ?case by (cases e) (simp split: response.splits)
qed

lemma listedFrom_fetchedPages:
  "list_all (\<lambda>e. fst e = FetchMore) (tl new) \<Longrightarrow>
     listedFrom be k [] new = fetchedPages be k new"
proof (cases new)
  case Nil
  then show ?thesis by simp
next
  case (Cons e rest)
  assume "list_all (\<lambda>e. fst e = FetchMore) (tl new)"
  then have "list_all (\<lambda>e. fst e = FetchMore) rest" using Cons by simp
  from listedFrom_fetchMore_only [OF this] show ?thesis
    using Cons by (cases e) (simp split: response.splits caller.splits)
qed

text \<open>
  Claim C8, as stated, fails: \<open>loadEntries\<close> replaces the children by its page. After
  \<open>loadEntries\<close>, \<open>fetchMore\<close>, \<open>loadEntries\<close>, answered with the pages \<open>a\<close>, \<open>b\<close> and
  \<open>c\<close>, the children are \<open>c\<close> alone, not the concatenation \<open>a\<close>, \<open>b\<close>, \<open>c\<close> of the pages
  fetched.
\<close>

theorem C8_counterexample:
  "(case runOps deniedAfterThree ([], s3Root) [OpLoadEntries, OpFetchMore, OpLoadEntries] of
      (log, self) \<Rightarrow>
        map fst log = [LoadEntries, FetchMore, LoadEntries]
        \<and> map name (fetchedPages deniedAfterThree 0 log) = [''a'', ''b'', ''c'']
        \<and> map name (map (\<lambda>e. definition (props e)) (entries self)) = [''c''])"
  by code_simp

text \<open>
  Claim C8, amended. After any sequence of \<open>loadEntries\<close> and \<open>fetchMore\<close> on a new
  entry, no child is named \<open>.\<close> or \<open>..\<close>, and the children are the concatenation, in the
  order of arrival, of the filtered pages fetched since the last successful
  \<open>loadEntries\<close>, which replaces the children by its page; they are the concatenation
  of all the pages fetched when no request of \<open>loadEntries\<close> follows another request.
  Every successful \<open>fetchMore\<close> appends its filtered page to the children there were.
\<close>

theorem C8_children_concatenate_pages:
  "(case runOps be (log, newEntry src orig rp fl par) ops of
      (log', self') \<Rightarrow>
        list_all (\<lambda>e. name (definition (props e)) \<noteq> ''.'' \<and> name (definition (props e)) \<noteq> ''..'')
          (entries self')
        \<and> (\<exists>new. log' = log @ new
              \<and> map (\<lambda>e. definition (props e)) (entries self') = listedFrom be (length log) [] new
              \<and> (list_all (\<lambda>e. fst e = FetchMore) (tl new) \<longrightarrow>
                   map (\<lambda>e. definition (props e)) (entries self') =
                     fetchedPages be (length log) new)))
   \<and> (hasMorePages (props self) \<and> \<not> loadingMore (props self)
        \<and> TYPE_SPECIFICS (source (props self)) = Some fn
        \<and> be2 (length log2) (moreRequest fn self) = Success fs nx s3
       \<longrightarrow> (\<exists>self'. fetchMore be2 log2 self = (log2 @ [(FetchMore, moreRequest fn self)], self', SuccessCallback)
              \<and> entries self' = entries self @ map (childEntry self) (filter notDot fs)))"
proof (intro conjI impI)
  obtain log' self' where r: "runOps be (log, newEntry src orig rp fl par) ops = (log', self')"
    by (cases "runOps be (log, newEntry src orig rp fl par) ops")
  have "listingInv be log (runOps be (log, newEntry src orig rp fl par) ops)"
    by (rule listingInv_runOps [OF listingInv_new])
  with r obtain new where n: "log' = log @ new"
    "defsOf self' = listedFrom be (length log) [] new" "list_all notDot (defsOf self')"
    by (auto simp: listingInv_def)
  have "list_all (\<lambda>e. fst e = FetchMore) (tl new) \<longrightarrow>
          defsOf self' = fetchedPages be (length log) new"
    using n(2) listedFrom_fetchedPages [of new be "length log"] by simp
  with n show "case runOps be (log, newEntry src orig rp fl par) ops of
      (log', self') \<Rightarrow>
        list_all (\<lambda>e. name (definition (props e)) \<noteq> ''.'' \<and> name (definition (props e)) \<noteq> ''..'')
          (entries self')
        \<and> (\<exists>new. log' = log @ new
              \<and> map (\<lambda>e. definition (props e)) (entries self') = listedFrom be (length log) [] new
              \<and> (list_all (\<lambda>e. fst e = FetchMore) (tl new) \<longrightarrow>
                   map (\<lambda>e. definition (props e)) (entries self') =
                     fetchedPages be (length log) new))"
    using r notDot_names [of "entries self'"] by (auto simp: defsOf_def)
next
  assume a: "hasMorePages (props self) \<and> \<not> loadingMore (props self)
        \<and> TYPE_SPECIFICS (source (props self)) = Some fn
        \<and> be2 (length log2) (moreRequest fn self) = Success fs nx s3"
  then have "fetchMore be2 log2 self =
     (log2 @ [(FetchMore, moreRequest fn self)],
      set_entries (entries self @ map (childEntry self) (filter notDot fs))
        (upd (\<lambda>p. p\<lparr>currentPage := currentPage p + 1, loadingMore := False,
                    hasErrors := False,
                    hasMorePages := morePages nx (currentPage p + 1)\<rparr>) self),
      SuccessCallback)"
    by (intro fetchMore_success [where be = be2 and log = log2]) simp_all
  then show "\<exists>self'. fetchMore be2 log2 self = (log2 @ [(FetchMore, moreRequest fn self)], self', SuccessCallback)
              \<and> entries self' = entries self @ map (childEntry self) (filter notDot fs)"
    by simp
qed

definition dotsListing :: backend where
  "dotsListing k req =
     (if req_page req = 1 then Success [dirNamed ''.'', dirNamed ''..'', dirNamed ''a''] (Some 2) None
      else Success [dirNamed ''..'', dirNamed ''b''] None None)"

theorem C8_children_concatenate_pages_witness:
  "hasMorePages (props (snd (runOps dotsListing ([], s3Root) [OpLoadEntries])))
   \<and> \<not> loadingMore (props (snd (runOps dotsListing ([], s3Root) [OpLoadEntries])))
   \<and> TYPE_SPECIFICS (source (props (snd (runOps dotsListing ([], s3Root) [OpLoadEntries])))) =
       Some ''fetchS3Path''
   \<and> dotsListing 1 (moreRequest ''fetchS3Path'' (snd (runOps dotsListing ([], s3Root) [OpLoadEntries]))) =
       Success [dirNamed ''..'', dirNamed ''b''] None None
   \<and> map (\<lambda>e. name (definition (props e)))
        (entries (snd (runOps dotsListing ([], s3Root) [OpLoadEntries]))) = [''a'']
   \<and> (\<exists>self'. fetchMore dotsListing (fst (runOps dotsListing ([], s3Root) [OpLoadEntries]))
                 (snd (runOps dotsListing ([], s3Root) [OpLoadEntries])) =
          (fst (runOps dotsListing ([], s3Root) [OpLoadEntries])
             @ [(FetchMore, moreRequest ''fetchS3Path'' (snd (runOps dotsListing ([], s3Root) [OpLoadEntries])))],
           self', SuccessCallback)
        \<and> entries self' = entries (snd (runOps dotsListing ([], s3Root) [OpLoadEntries]))
             @ map (childEntry (snd (runOps dotsListing ([], s3Root) [OpLoadEntries])))
                 (filter notDot [dirNamed ''..'', dirNamed ''b'']))
   \<and> (case runOps dotsListing ([], s3Root) [OpLoadEntries, OpFetchMore] of
        (log', self') \<Rightarrow>
          map fst log' = [LoadEntries, FetchMore]
          \<and> list_all (\<lambda>e. fst e = FetchMore) (tl log')
          \<and> map (\<lambda>e. definition (props e)) (entries self') = fetchedPages dotsListing 0 log'
          \<and> map (\<lambda>e. name (definition (props e))) (entries self') = [''a'', ''b''])"
proof -
  let ?st = "runOps dotsListing ([], s3Root) [OpLoadEntries]"
  have h1: "hasMorePages (props (snd ?st)) \<and> \<not> loadingMore (props (snd ?st))" by code_simp
  have h2: "TYPE_SPECIFICS (source (props (snd ?st))) = Some ''fetchS3Path''" by code_simp
  have h3: "dotsListing 1 (moreRequest ''fetchS3Path'' (snd ?st)) =
       Success [dirNamed ''..'', dirNamed ''b''] None None" by code_simp
  have h4: "length (fst ?st) = 1" by code_simp
  have h5: "map (\<lambda>e. name (definition (props e))) (entries (snd ?st)) = [''a'']" by code_simp
  obtain log' self' where
    r: "runOps dotsListing ([], s3Root) [OpLoadEntries, OpFetchMore] = (log', self')"
    by (cases "runOps dotsListing ([], s3Root) [OpLoadEntries, OpFetchMore]")
  have h6: "map fst (fst (runOps dotsListing ([], s3Root) [OpLoadEntries, OpFetchMore])) =
       [LoadEntries, FetchMore]" by code_simp
  have h7: "map (\<lambda>e. name (definition (props e)))
       (entries (snd (runOps dotsListing ([], s3Root) [OpLoadEntries, OpFetchMore]))) =
       [''a'', ''b'']" by code_simp
  from h6 r have m: "map fst log' = [LoadEntries, FetchMore]" by simp
  then have tl: "list_all (\<lambda>e. fst e = FetchMore) (tl log')"
    by (cases log'; cases "tl log'") auto
  note inst = C8_children_concatenate_pages [where be = dotsListing and log = "[]"
        and ops = "[OpLoadEntries, OpFetchMore]" and src = "''s3''" and orig = "Some ''s3a''"
        and rp = "[]" and fl = "dirNamed []" and par = None
        and self = "snd ?st" and fn = "''fetchS3Path''" and ?be2.0 = dotsListing
        and ?log2.0 = "fst ?st" and fs = "[dirNamed ''..'', dirNamed ''b'']" and nx = None
        and ?s3.0 = None]
  have c: "map (\<lambda>e. definition (props e)) (entries self') = fetchedPages dotsListing 0 log'"
    using conjunct1 [OF inst] r [unfolded s3Root_def] tl by auto
  have d: "\<exists>self'. fetchMore dotsListing (fst ?st) (snd ?st) =
          (fst ?st @ [(FetchMore, moreRequest ''fetchS3Path'' (snd ?st))], self', SuccessCallback)
        \<and> entries self' = entries (snd ?st)
             @ map (childEntry (snd ?st)) (filter notDot [dirNamed ''..'', dirNamed ''b''])"
    using inst h1 h2 h3 h4 by simp
  show ?thesis
    using h1 h2 h3 h5 d r m tl c h7 by simp
qed

lemma loadingMore_loadEntries:
  "loadEntries be log self = (log', self', c) \<Longrightarrow>
     loadingMore (props self') = loadingMore (props self)
     \<and> filter (\<lambda>e. fst e = FetchMore) log' = filter (\<lambda>e. fst e = FetchMore) log"
  by (auto simp: loadEntries_def Let_def split: if_splits option.splits response.splits)

lemma stuck_runOp:
  "loadingMore (props (snd st)) \<Longrightarrow>
     loadingMore (props (snd (runOp be st op)))
     \<and> filter (\<lambda>e. fst e = FetchMore) (fst (runOp be st op)) = filter (\<lambda>e. fst e = FetchMore) (fst st)"
proof (cases st)
  case (Pair log self)
  assume "loadingMore (props (snd st))"
  then have l: "loadingMore (props self)" using Pair by simp
  show ?thesis
  proof (cases op)
    case OpLoadEntries
    obtain log' self' c where r: "loadEntries be log self = (log', self', c)"
      by (cases "loadEntries be log self")
    from loadingMore_loadEntries [OF r] l show ?thesis using Pair OpLoadEntries r by simp
  next
    case OpFetchMore
    then show ?thesis using Pair l by (simp add: fetchMore_idle)
  qed
qed

lemma stuck_runOps:
  "loadingMore (props (snd st)) \<Longrightarrow>
     loadingMore (props (snd (runOps be st ops)))
     \<and> filter (\<lambda>e. fst e = FetchMore) (fst (runOps be st ops)) = filter (\<lambda>e. fst e = FetchMore) (fst st)"
  unfolding runOps_def
proof (induction ops arbitrary: st)
  case Nil
  then show ?case by simp
next
  case (Cons op ops)
  from stuck_runOp [OF Cons.prems, of be op] Cons.IH [of "runOp be st op"]
  show ?case by simp
qed

lemma stuck_findNext:
  "loadingMore (props self) \<Longrightarrow>
     fst (findNextAndLoadDeep lc be target log self lp) = log
     \<and> fst (snd (findNextAndLoadDeep lc be target log self lp)) = self"
  by (subst findNextAndLoadDeep.simps, subst (2) findNextAndLoadDeep.simps)
     (simp add: Let_def fetchMore_idle)

text \<open>
  Claim C10. When the request of \<open>fetchMore\<close> fails, the error callback sets the error
  flag, leaves the error text as it was and leaves \<open>loadingMore\<close> set. On an entry with
  \<open>loadingMore\<close> set, \<open>fetchMore\<close> returns at once without a request, whatever the backend;
  no sequence of operations resets the flag or makes a \<open>fetchMore\<close> request, and the
  search of a walk at that entry makes no request either.
\<close>

theorem C10_fetchMore_hard_error_sticks:
  "(hasMorePages (props self) \<and> \<not> loadingMore (props self)
      \<and> TYPE_SPECIFICS (source (props self)) = Some fn
      \<and> be (length log) (moreRequest fn self) = Failure t
     \<longrightarrow> (\<exists>self'. fetchMore be log self =
                     (log @ [(FetchMore, moreRequest fn self)], self', ErrorCallback)
            \<and> loadingMore (props self') \<and> hasErrors (props self')
            \<and> errorText (props self') = errorText (props self)))
   \<and> (loadingMore (props stuck)
     \<longrightarrow> fetchMore be2 log2 stuck = (log2, stuck, Returned)
        \<and> loadingMore (props (snd (runOps be2 (log2, stuck) ops)))
        \<and> filter (\<lambda>e. fst e = FetchMore) (fst (runOps be2 (log2, stuck) ops)) =
            filter (\<lambda>e. fst e = FetchMore) log2
        \<and> fst (findNextAndLoadDeep lc be2 target log2 stuck lp) = log2)"
proof (intro conjI impI)
  assume a: "hasMorePages (props self) \<and> \<not> loadingMore (props self)
      \<and> TYPE_SPECIFICS (source (props self)) = Some fn
      \<and> be (length log) (moreRequest fn self) = Failure t"
  then have "fetchMore be log self =
     (log @ [(FetchMore, moreRequest fn self)],
      upd (\<lambda>p. p\<lparr>currentPage := currentPage p + 1, loadingMore := True, hasErrors := True\<rparr>) self,
      ErrorCallback)"
    by (intro fetchMore_failure [where be = be and log = log]) simp_all
  then show "\<exists>self'. fetchMore be log self =
                     (log @ [(FetchMore, moreRequest fn self)], self', ErrorCallback)
            \<and> loadingMore (props self') \<and> hasErrors (props self')
            \<and> errorText (props self') = errorText (props self)"
    by simp
next
  assume "loadingMore (props stuck)"
  then show "fetchMore be2 log2 stuck = (log2, stuck, Returned)" by (simp add: fetchMore_idle)
next
  assume "loadingMore (props stuck)"
  then show "loadingMore (props (snd (runOps be2 (log2, stuck) ops)))"
    using stuck_runOps [of "(log2, stuck)" be2 ops] by simp
next
  assume "loadingMore (props stuck)"
  then show "filter (\<lambda>e. fst e = FetchMore) (fst (runOps be2 (log2, stuck) ops)) =
            filter (\<lambda>e. fst e = FetchMore) log2"
    using stuck_runOps [of "(log2, stuck)" be2 ops] by simp
next
  assume "loadingMore (props stuck)"
  then show "fst (findNextAndLoadDeep lc be2 target log2 stuck lp) = log2"
    by (simp add: stuck_findNext)
qed

definition secondPageFails :: backend where
  "secondPageFails k req =
     (if req_page req = 1 then Success [dirNamed ''a''] (Some 2) None else Failure ''timeout'')"

theorem C10_fetchMore_hard_error_sticks_witness:
  "hasMorePages (props (snd (runOps secondPageFails ([], s3Root) [OpLoadEntries])))
   \<and> \<not> loadingMore (props (snd (runOps secondPageFails ([], s3Root) [OpLoadEntries])))
   \<and> secondPageFails 1
        (moreRequest ''fetchS3Path'' (snd (runOps secondPageFails ([], s3Root) [OpLoadEntries]))) =
       Failure ''timeout''
   \<and> (\<exists>self'. fetchMore secondPageFails (fst (runOps secondPageFails ([], s3Root) [OpLoadEntries]))
          (snd (runOps secondPageFails ([], s3Root) [OpLoadEntries])) =
         (fst (runOps secondPageFails ([], s3Root) [OpLoadEntries])
            @ [(FetchMore, moreRequest ''fetchS3Path''
                 (snd (runOps secondPageFails ([], s3Root) [OpLoadEntries])))],
          self', ErrorCallback)
       \<and> loadingMore (props self') \<and> hasErrors (props self')
       \<and> errorText (props self') =
           errorText (props (snd (runOps secondPageFails ([], s3Root) [OpLoadEntries]))))
   \<and> loadingMore (props (snd (runOps secondPageFails ([], s3Root) [OpLoadEntries, OpFetchMore])))
   \<and> fetchMore dotsListing [] (snd (runOps secondPageFails ([], s3Root) [OpLoadEntries, OpFetchMore])) =
       ([], snd (runOps secondPageFails ([], s3Root) [OpLoadEntries, OpFetchMore]), Returned)
   \<and> loadingMore (props (snd (runOps dotsListing
         ([], snd (runOps secondPageFails ([], s3Root) [OpLoadEntries, OpFetchMore]))
         [OpFetchMore, OpLoadEntries, OpFetchMore])))
   \<and> filter (\<lambda>e. fst e = FetchMore) (fst (runOps dotsListing
         ([], snd (runOps secondPageFails ([], s3Root) [OpLoadEntries, OpFetchMore]))
         [OpFetchMore, OpLoadEntries, OpFetchMore])) = []"
proof -
  let ?st1 = "runOps secondPageFails ([], s3Root) [OpLoadEntries]"
  let ?st2 = "runOps secondPageFails ([], s3Root) [OpLoadEntries, OpFetchMore]"
  have h1: "hasMorePages (props (snd ?st1)) \<and> \<not> loadingMore (props (snd ?st1))" by code_simp
  have h2: "TYPE_SPECIFICS (source (props (snd ?st1))) = Some ''fetchS3Path''" by code_simp
  have h3: "secondPageFails 1 (moreRequest ''fetchS3Path'' (snd ?st1)) = Failure ''timeout''"
    by code_simp
  have h4: "length (fst ?st1) = 1" by code_simp
  have h5: "loadingMore (props (snd ?st2))" by code_simp
  show ?thesis
    using C10_fetchMore_hard_error_sticks [where self = "snd ?st1" and fn = "''fetchS3Path''"
        and be = secondPageFails and log = "fst ?st1" and t = "''timeout''"
        and stuck = "snd ?st2" and ?be2.0 = dotsListing and ?log2.0 = "[]"
        and ops = "[OpFetchMore, OpLoadEntries, OpFetchMore]"]
      h1 h2 h3 h4 h5
    by simp
qed

section \<open>Facts about the walk\<close>

text \<open>
  \<open>foundEntry\<close> and \<open>passedAlphabetically\<close> are the two local values of
  \<open>findNextAndLoadDeep\<close>, as functions of the entry and the name searched.
\<close>

definition foundEntry :: "AssistStorageEntry \<Rightarrow> string \<Rightarrow> nat list" where
  "foundEntry self nextName =
     filter (\<lambda>i. name (definition (props (entries self ! i))) = nextName)
       [0..<length (entries self)]"

definition passedAlphabetically ::
  "(string \<Rightarrow> string \<Rightarrow> int) \<Rightarrow> AssistStorageEntry \<Rightarrow> string \<Rightarrow> bool" where
  "passedAlphabetically lc self nextName =
     (length (entries self) > 0 \<and>
      lc (name (definition (props (last (entries self))))) nextName > 0)"

lemma findNext_found:
  "length (foundEntry self t) = 1 \<Longrightarrow>
   findNextAndLoadDeep lc be t log self lp = (log, self, lp, Descend (hd (foundEntry self t)))"
  by (subst findNextAndLoadDeep.simps) (simp add: foundEntry_def Let_def)

lemma findNext_done:
  "length (foundEntry self t) \<noteq> 1 \<Longrightarrow>
   passedAlphabetically lc self t \<or> \<not> hasMorePages (props self) \<or> \<not> lp < 50 \<Longrightarrow>
   findNextAndLoadDeep lc be t log self lp = (log, self, lp, Done)"
  by (subst findNextAndLoadDeep.simps)
     (auto simp: foundEntry_def passedAlphabetically_def Let_def)

lemma findNext_more:
  "length (foundEntry self t) \<noteq> 1 \<Longrightarrow> \<not> passedAlphabetically lc self t \<Longrightarrow>
   hasMorePages (props self) \<Longrightarrow> lp < 50 \<Longrightarrow> fetchMore be log self = (log', self', c) \<Longrightarrow>
   findNextAndLoadDeep lc be t log self lp =
     (case c of
        SuccessCallback \<Rightarrow> findNextAndLoadDeep lc be t log' self' (lp + 1)
      | ErrorCallback \<Rightarrow> (log', self', lp + 1, Done)
      | Returned \<Rightarrow> (log', self', lp + 1, Stalled)
      | TypeError \<Rightarrow> (log', self', lp + 1, Thrown))"
  by (subst findNextAndLoadDeep.simps)
     (simp add: foundEntry_def passedAlphabetically_def Let_def split: completion.splits)

text \<open>An induction rule for the search loop, by the three cases above.\<close>

lemma findNext_induct [consumes 0, case_names found stop more]:
  assumes found: "\<And>log self (lp::nat). length (foundEntry self t) = 1 \<Longrightarrow> P log self lp"
    and stop: "\<And>log self lp. length (foundEntry self t) \<noteq> 1 \<Longrightarrow>
        passedAlphabetically lc self t \<or> \<not> hasMorePages (props self) \<or> \<not> lp < 50 \<Longrightarrow>
        P log self lp"
    and more: "\<And>log self lp log' self' c. length (foundEntry self t) \<noteq> 1 \<Longrightarrow>
        \<not> passedAlphabetically lc self t \<Longrightarrow> hasMorePages (props self) \<Longrightarrow> lp < 50 \<Longrightarrow>
        fetchMore be log self = (log', self', c) \<Longrightarrow>
        (c = SuccessCallback \<Longrightarrow> P log' self' (lp + 1)) \<Longrightarrow> P log self lp"
  shows "P log self lp"
proof (induction "50 - lp" arbitrary: log self lp rule: less_induct)
  case less
  show ?case
  proof (cases "length (foundEntry self t) = 1")
    case True
    then show ?thesis by (rule found)
  next
    case nf: False
    show ?thesis
    proof (cases "passedAlphabetically lc self t \<or> \<not> hasMorePages (props self) \<or> \<not> lp < 50")
      case True
      then show ?thesis by (rule stop [OF nf])
    next
      case False
      obtain log' self' c where f: "fetchMore be log self = (log', self', c)"
        by (cases "fetchMore be log self")
      from False have lt: "lp < 50" by simp
      have "P log' self' (lp + 1)" using less [of "lp + 1" log' self'] lt by simp
      then show ?thesis using more [OF nf _ _ lt f] False by blast
    qed
  qed
qed

lemma fetchMore_log:
  "fetchMore be log self = (log', self', c) \<Longrightarrow>
     (c = Returned \<or> c = TypeError \<longrightarrow> log' = log)
     \<and> (c = SuccessCallback \<or> c = ErrorCallback \<longrightarrow> (\<exists>req. log' = log @ [(FetchMore, req)]))"
  by (auto simp: fetchMore_def Let_def split: if_splits option.splits response.splits)

lemma loadEntries_log:
  "loadEntries be log self = (log', self', c) \<Longrightarrow>
     (c = Returned \<or> c = TypeError \<longrightarrow> log' = log)
     \<and> (c = SuccessCallback \<or> c = ErrorCallback \<longrightarrow> (\<exists>req. log' = log @ [(LoadEntries, req)]))"
  by (auto simp: loadEntries_def Let_def split: if_splits option.splits response.splits)

lemma findNext_log:
  "\<exists>new. fst (findNextAndLoadDeep lc be t log self lp) = log @ new
     \<and> length new \<le> 50 - lp \<and> list_all (\<lambda>e. fst e = FetchMore) new"
proof (induction log self lp rule: findNext_induct [where t = t and lc = lc and be = be])
  case (found log self lp)
  then show ?case by (simp add: findNext_found)
next
  case (stop log self lp)
  then show ?case by (simp add: findNext_done)
next
  case (more log self lp log' self' c)
  note eq = findNext_more [OF more(1-5)]
  from fetchMore_log [OF more(5)] have l:
    "(c = Returned \<or> c = TypeError \<longrightarrow> log' = log)"
    "(c = SuccessCallback \<or> c = ErrorCallback \<longrightarrow> (\<exists>req. log' = log @ [(FetchMore, req)]))"
    by blast+
  show ?case
  proof (cases c)
    case SuccessCallback
    from l(2) SuccessCallback obtain req where r: "log' = log @ [(FetchMore, req)]" by blast
    from more(6) [OF SuccessCallback] obtain new where
      n: "fst (findNextAndLoadDeep lc be t log' self' (lp + 1)) = log' @ new"
      "length new \<le> 50 - (lp + 1)" "list_all (\<lambda>e. fst e = FetchMore) new" by blast
    have "fst (findNextAndLoadDeep lc be t log self lp) = log @ ((FetchMore, req) # new)"
      using eq SuccessCallback n(1) r by simp
    moreover have "length ((FetchMore, req) # new) \<le> 50 - lp" using n(2) more(4) by simp
    ultimately show ?thesis using n(3) by (intro exI [of _ "(FetchMore, req) # new"]) simp
  next
    case ErrorCallback
    from l(2) ErrorCallback obtain req where r: "log' = log @ [(FetchMore, req)]" by blast
    have "fst (findNextAndLoadDeep lc be t log self lp) = log @ [(FetchMore, req)]"
      using eq ErrorCallback r by simp
    then show ?thesis using more(4) by (intro exI [of _ "[(FetchMore, req)]"]) simp
  next
    case Returned
    then show ?thesis using eq l(1) by simp
  next
    case TypeError
    then show ?thesis using eq l(1) by simp
  qed
qed

text \<open>
  A collation for the examples: the comparison by code units. A browser's
  \<open>localeCompare\<close> may order differently; the theorems hold for every collation.
\<close>

fun codeUnitCompare :: "string \<Rightarrow> string \<Rightarrow> int" where
  "codeUnitCompare [] [] = 0"
| "codeUnitCompare [] (y # ys) = - 1"
| "codeUnitCompare (x # xs) [] = 1"
| "codeUnitCompare (x # xs) (y # ys) =
     (if (of_char x :: nat) < of_char y then - 1
      else if (of_char y :: nat) < of_char x then 1
      else codeUnitCompare xs ys)"

definition hdfsRoot :: AssistStorageEntry where
  "hdfsRoot = newEntry ''hdfs'' None [] (dirNamed []) None"

text \<open>A backend whose every page is empty and announces a next page.\<close>

definition emptyPages :: backend where
  "emptyPages k req = Success [] (Some (req_page req + 1)) None"

lemma loadDeep_Nil: "loadDeep RegExp lc be log self [] = (log, self, Resolved [])"
  by (subst loadDeep.simps) simp


text \<open>The walk at one entry once the folders are rewritten and the first page is there.\<close>

definition afterLoad ::
  "regexp_constructor \<Rightarrow> (string \<Rightarrow> string \<Rightarrow> int) \<Rightarrow> backend \<Rightarrow> string list
     \<Rightarrow> world \<times> AssistStorageEntry \<times> completion
     \<Rightarrow> world \<times> AssistStorageEntry \<times> walk_result" where
  "afterLoad RegExp lc be folders1 r =
     (case r of
        (log1, self1, Returned) \<Rightarrow> (log1, self1, NeverCalled)
      | (log1, self1, TypeError) \<Rightarrow> (log1, self1, Threw)
      | (log1, self1, _) \<Rightarrow>
          (case findNextAndLoadDeep lc be (hd folders1) log1 self1 0 of
             (log2, self2, n, Descend i) \<Rightarrow>
               (case loadDeep RegExp lc be log2 (entries self2 ! i) (tl folders1) of
                  (log3, child, r) \<Rightarrow>
                    (log3, set_entries ((entries self2)[i := child]) self2, under i r))
           | (log2, self2, n, Done) \<Rightarrow> (log2, self2, Resolved [])
           | (log2, self2, n, Stalled) \<Rightarrow> (log2, self2, NeverCalled)
           | (log2, self2, n, Thrown) \<Rightarrow> (log2, self2, Threw)))"

lemma loadDeep_step:
  "folders \<noteq> [] \<Longrightarrow> relativeFolders RegExp (rootPath (props self)) folders = Some folders1 \<Longrightarrow>
   loadDeep RegExp lc be log self folders =
     afterLoad RegExp lc be folders1
       (if \<not> loaded (props self) then loadEntries be log self else (log, self, SuccessCallback))"
  by (subst loadDeep.simps) (simp add: afterLoad_def)

lemma afterLoad_single_log:
  assumes "log1 = log \<or> (\<exists>req. log1 = log @ [(LoadEntries, req)])"
  shows "\<exists>new. fst (afterLoad RegExp lc be [t] (log1, self1, c)) = log1 @ new \<and> length new \<le> 50
            \<and> list_all (\<lambda>e. fst e = FetchMore) new"
proof -
  obtain log2 self2 n d where f: "findNextAndLoadDeep lc be t log1 self1 0 = (log2, self2, n, d)"
    by (cases "findNextAndLoadDeep lc be t log1 self1 0") auto
  from findNext_log [of lc be t log1 self1 0] f obtain new where
    n: "log2 = log1 @ new" "length new \<le> 50" "list_all (\<lambda>e. fst e = FetchMore) new" by auto
  have "fst (afterLoad RegExp lc be [t] (log1, self1, c)) = log1 \<or>
        fst (afterLoad RegExp lc be [t] (log1, self1, c)) = log2"
    using f by (cases c; cases d) (simp_all add: afterLoad_def loadDeep_Nil)
  then show ?thesis
  proof
    assume "fst (afterLoad RegExp lc be [t] (log1, self1, c)) = log1"
    then show ?thesis by (intro exI [of _ "[]"]) simp
  next
    assume "fst (afterLoad RegExp lc be [t] (log1, self1, c)) = log2"
    then show ?thesis using n by (intro exI [of _ new]) simp
  qed
qed

lemma loadDeep_single_log:
  assumes "relativeFolders RegExp (rootPath (props self)) folders = Some [t]"
  shows "\<exists>new. fst (loadDeep RegExp lc be log self folders) = log @ new \<and> length new \<le> 51
           \<and> length (filter (\<lambda>e. fst e = FetchMore) new) \<le> 50
           \<and> (loaded (props self) \<longrightarrow> length new \<le> 50)"
proof (cases "folders = []")
  case True
  then show ?thesis by (simp add: loadDeep_Nil)
next
  case False
  note step = loadDeep_step [OF False assms, of lc be log]
  show ?thesis
  proof (cases "loaded (props self)")
    case True
    from afterLoad_single_log [of log log RegExp lc be t self SuccessCallback] obtain new where
      "fst (afterLoad RegExp lc be [t] (log, self, SuccessCallback)) = log @ new" "length new \<le> 50"
      "list_all (\<lambda>e. fst e = FetchMore) new" by auto
    then show ?thesis using step True
      by (intro exI [of _ new]) (simp add: le_trans [OF length_filter_le])
  next
    case nl: False
    obtain log1 self1 c where l: "loadEntries be log self = (log1, self1, c)"
      by (cases "loadEntries be log self")
    from loadEntries_log [OF l] have d: "log1 = log \<or> (\<exists>req. log1 = log @ [(LoadEntries, req)])"
      by (cases c) auto
    from afterLoad_single_log [OF d, of RegExp lc be t self1 c] obtain new where
      n: "fst (afterLoad RegExp lc be [t] (log1, self1, c)) = log1 @ new" "length new \<le> 50"
      "list_all (\<lambda>e. fst e = FetchMore) new" by auto
    from d show ?thesis
    proof
      assume "log1 = log"
      then show ?thesis using step nl l n
        by (intro exI [of _ new]) (simp add: le_trans [OF length_filter_le])
    next
      assume "\<exists>req. log1 = log @ [(LoadEntries, req)]"
      then obtain req where "log1 = log @ [(LoadEntries, req)]" by blast
      then show ?thesis using step nl l n
        by (intro exI [of _ "(LoadEntries, req) # new"])
           (simp add: le_trans [OF length_filter_le])
    qed
  qed
qed

text \<open>
  Claim C1, as stated, fails: the bound of 50 is on the \<open>fetchMore\<close> requests, and the
  load of the first page comes on top of it. On a new entry, with a backend whose pages
  are empty and always announce a next page, the walk for the single segment \<open>x\<close> makes
  51 page requests (one by \<open>loadEntries\<close>, fifty by \<open>fetchMore\<close>) before it returns the
  entry.
\<close>

theorem C1_counterexample:
  "relativeFolders (engineOf []) (rootPath (props hdfsRoot)) [''x''] = Some [''x'']
   \<and> (case loadDeep (engineOf []) codeUnitCompare emptyPages [] hdfsRoot [''x''] of
        (log, self, r) \<Rightarrow>
          length log = 51 \<and> map fst log = LoadEntries # replicate 50 FetchMore
          \<and> r = Resolved [])"
  by code_simp

text \<open>
  Claim C1, amended. For every collation, every backend and every target, the search at
  one entry makes at most \<open>50 - loadedPages\<close> requests, all of them by \<open>fetchMore\<close>: the
  counter gates each further request below 50. A walk for a single target segment at one
  entry therefore makes at most 50 \<open>fetchMore\<close> requests and, when the entry is not
  loaded yet, one \<open>loadEntries\<close> request before them: at most 51 page requests, and at
  most 50 at an entry that is loaded.
\<close>

theorem C1_fetch_bound:
  "(\<exists>new. fst (findNextAndLoadDeep lc be t log self lp) = log @ new
       \<and> length new \<le> 50 - lp \<and> list_all (\<lambda>e. fst e = FetchMore) new)
   \<and> (relativeFolders RegExp (rootPath (props self2)) folders = Some [t2] \<longrightarrow>
        (\<exists>new. fst (loadDeep RegExp lc be log2 self2 folders) = log2 @ new \<and> length new \<le> 51
           \<and> length (filter (\<lambda>e. fst e = FetchMore) new) \<le> 50
           \<and> (loaded (props self2) \<longrightarrow> length new \<le> 50)))"
  using findNext_log [of lc be t log self lp] loadDeep_single_log [of RegExp self2 folders t2 lc be log2]
  by blast

theorem C1_fetch_bound_witness:
  "relativeFolders (engineOf []) (rootPath (props hdfsRoot)) [''x''] = Some [''x'']
   \<and> (\<exists>new. fst (loadDeep (engineOf []) codeUnitCompare emptyPages [] hdfsRoot [''x'']) = [] @ new
          \<and> length new \<le> 51 \<and> length (filter (\<lambda>e. fst e = FetchMore) new) \<le> 50)"
proof -
  have h: "relativeFolders (engineOf []) (rootPath (props hdfsRoot)) [''x''] = Some [''x'']" by code_simp
  show ?thesis
    using C1_fetch_bound [where ?self2.0 = hdfsRoot and folders = "[''x'']" and ?t2.0 = "''x''"
        and lc = codeUnitCompare and be = emptyPages and ?log2.0 = "[]"
        and RegExp = "engineOf []"] h
    by blast
qed

















text \<open>
  Two more roots: one whose root path \<^verbatim>\<open>/user/c++\<close> is not the source of a pattern
  (\<^verbatim>\<open>new RegExp('^/user/c++')\<close> throws: nothing to repeat), and one of a source type
  that has no entry in \<open>TYPE_SPECIFICS\<close>.
\<close>

definition cppRoot :: AssistStorageEntry where
  "cppRoot = newEntry ''hdfs'' None ''/user/c++'' \<lparr>name = ''/user/c++'', type = ''dir''\<rparr> None"

















section \<open>The root path as a pattern\<close>

text \<open>
  What the language makes of three sources: in \<^verbatim>\<open>^a.b\<close> the dot stands for any
  character but a line terminator, in \<^verbatim>\<open>^a+b\<close> the plus repeats the \<open>a\<close>, and \<^verbatim>\<open>^b\<close>
  is the letter at the start of the text.
\<close>

definition rootPathPatterns :: "(string \<times> re) list" where
  "rootPathPatterns =
     [(''^a.b'', seqs [Bol, Lit CHR ''a'', Atom dotChar, Lit CHR ''b'']),
      (''^a+b'', seqs [Bol, Plus (Lit CHR ''a''), Lit CHR ''b'']),
      (''^b'', seqs [Bol, Lit CHR ''b''])]"

text \<open>
  A listing in which the root holds the folder \<open>axb\<close>, and \<open>axb\<close> holds \<open>c\<close>; a root over
  it with the root path \<^verbatim>\<open>a.b\<close>, and the same root with the empty root path.
\<close>

definition axbListing :: backend where
  "axbListing k req =
     (if req_pathParts req \<noteq> [] \<and> last (req_pathParts req) = ''axb''
      then Success [dirNamed ''c''] None None
      else Success [dirNamed ''axb''] None None)"

definition dotRoot :: AssistStorageEntry where
  "dotRoot = newEntry ''hdfs'' None ''a.b'' (dirNamed ''a.b'') None"

definition plainRoot :: AssistStorageEntry where
  "plainRoot = newEntry ''hdfs'' None [] (dirNamed ''a.b'') None"

text \<open>
  Claim C9 says that a leading occurrence of the root path is deleted from the joined
  folders. The code builds the pattern from the text of the root path without escaping
  it, so what it deletes is a match of the root path read as a pattern. With the root
  path \<^verbatim>\<open>a.b\<close> the folders \<open>axb\<close>, \<open>c\<close>, whose joined text does not begin with the root
  path, are rewritten to the empty segment and \<open>c\<close>, and the walk for them stops at the
  root, looking for a child with the empty name, while with the empty root path it
  reaches \<open>axb/c\<close>. With the root path \<^verbatim>\<open>a+b\<close> the folders \<open>a+b\<close>, \<open>c\<close>, whose joined
  text begins with the root path, stay as they are. With the root path \<^verbatim>\<open>/user/c++\<close>
  the walk throws.
\<close>

theorem C9_root_path_read_as_pattern:
  "take (length ''a.b'') (js_join CHR ''/'' [''axb'', ''c'']) \<noteq> ''a.b''
   \<and> relativeFolders (engineOf rootPathPatterns) ''a.b'' [''axb'', ''c''] = Some [[], ''c'']
   \<and> snd (snd (loadDeep (engineOf rootPathPatterns) codeUnitCompare axbListing [] dotRoot
                  [''axb'', ''c''])) = Resolved []
   \<and> snd (snd (loadDeep (engineOf rootPathPatterns) codeUnitCompare axbListing [] plainRoot
                  [''axb'', ''c''])) = Resolved [0, 0]
   \<and> take (length ''a+b'') (js_join CHR ''/'' [''a+b'', ''c'']) = ''a+b''
   \<and> relativeFolders (engineOf rootPathPatterns) ''a+b'' [''a+b'', ''c''] = Some [''a+b'', ''c'']
   \<and> relativeFolders (engineOf rootPathPatterns) ''b'' [''b'', ''c''] = Some [[], ''c'']
   \<and> loadDeep (engineOf rootPathPatterns) codeUnitCompare axbListing [] cppRoot [''c++'', ''x''] =
       ([], cppRoot, SyntaxError)"
  by code_simp

section \<open>A sorted listing of two pages\<close>

text \<open>
  A backend that lists the files \<open>fs\<close> in pages of the requested size and announces a
  next page while files remain.
\<close>

definition pagedListing :: "file_definition list \<Rightarrow> backend" where
  "pagedListing fs k req =
     Success (take (req_pageSize req) (drop ((req_page req - 1) * req_pageSize req) fs))
       (if req_page req * req_pageSize req < length fs then Some (req_page req + 1) else None)
       None"

definition namesOf :: "AssistStorageEntry \<Rightarrow> string list" where
  "namesOf self = map (\<lambda>e. name (definition (props e))) (entries self)"

lemma foundEntry_names:
  "foundEntry self t = filter (\<lambda>i. namesOf self ! i = t) [0..<length (namesOf self)]"
  by (auto simp: foundEntry_def namesOf_def intro: filter_cong)

lemma filter_index_absent: "t \<notin> set xs \<Longrightarrow> filter (\<lambda>i. xs ! i = t) [0..<length xs] = []"
  by (auto simp: filter_empty_conv)

lemma filter_eq_upt: "k < n \<Longrightarrow> filter (\<lambda>i. i = k) [0..<n] = [k]"
proof (induction n)
  case 0
  then show ?case by simp
next
  case (Suc n)
  show ?case
  proof (cases "k = n")
    case True
    then show ?thesis by (simp add: filter_empty_conv)
  next
    case False
    with Suc show ?thesis by simp
  qed
qed

lemma filter_index_distinct:
  assumes "distinct xs" "k < length xs"
  shows "filter (\<lambda>i. xs ! i = xs ! k) [0..<length xs] = [k]"
proof -
  have "filter (\<lambda>i. xs ! i = xs ! k) [0..<length xs] = filter (\<lambda>i. i = k) [0..<length xs]"
    using assms by (intro filter_cong) (auto simp: nth_eq_iff_index_eq)
  then show ?thesis
    using filter_eq_upt [OF assms(2)] by simp
qed

lemma filter_notDot_all: "list_all notDot fs \<Longrightarrow> filter notDot fs = fs"
  by (simp add: list_all_iff)

lemma namesOf_children: "map (\<lambda>e. name (definition (props e))) (map (childEntry self) fs) = map name fs"
  by (simp add: comp_def)

text \<open>The node after the first page of a listing of more than one page has arrived.\<close>

definition firstPage :: "file_definition list \<Rightarrow> AssistStorageEntry \<Rightarrow> AssistStorageEntry" where
  "firstPage fs self =
     set_entries (map (childEntry self) (filter notDot (take PAGE_SIZE fs)))
       (upd (\<lambda>p. p\<lparr>hasMorePages := morePages (Some 2) (currentPage p), loaded := True,
                   loading := False, hasErrors := truthy None, errorText := None\<rparr>) self)"

lemma paged_load:
  assumes "\<not> loading (props self)" "currentPage (props self) = 1"
    "TYPE_SPECIFICS (source (props self)) = Some fn" "PAGE_SIZE < length fs"
  shows "loadEntries (pagedListing fs) log self =
           (log @ [(LoadEntries, loadRequest fn self)], firstPage fs self, SuccessCallback)"
proof -
  have "pagedListing fs (length log) (loadRequest fn self) =
          Success (take PAGE_SIZE fs) (Some 2) None"
    using assms(2,4) by (simp add: pagedListing_def loadRequest_def mkRequest_def)
  from loadEntries_success [where be = "pagedListing fs" and log = log, OF assms(1) assms(3) this] show ?thesis
    by (simp add: firstPage_def)
qed

lemma firstPage_props:
  assumes "currentPage (props self) = 1" "\<not> loadingMore (props self)" "list_all notDot fs"
    "PAGE_SIZE < length fs"
  shows "namesOf (firstPage fs self) = map name (take PAGE_SIZE fs)"
    and "hasMorePages (props (firstPage fs self))"
    and "\<not> loadingMore (props (firstPage fs self))"
    and "source (props (firstPage fs self)) = source (props self)"
    and "currentPage (props (firstPage fs self)) = 1"
    and "entries (firstPage fs self) \<noteq> []"
    and "name (definition (props (last (entries (firstPage fs self))))) = name (fs ! (PAGE_SIZE - 1))"
proof -
  have nd: "filter notDot (take PAGE_SIZE fs) = take PAGE_SIZE fs"
    using assms(3) by (simp add: list_all_iff filter_id_conv) (meson in_set_takeD)
  show "namesOf (firstPage fs self) = map name (take PAGE_SIZE fs)"
    by (simp add: namesOf_def firstPage_def nd comp_def)
  show "hasMorePages (props (firstPage fs self))"
    using assms(1) by (simp add: firstPage_def morePages_def)
  show "\<not> loadingMore (props (firstPage fs self))"
    using assms(2) by (simp add: firstPage_def)
  show "source (props (firstPage fs self)) = source (props self)"
    by (simp add: firstPage_def)
  show "currentPage (props (firstPage fs self)) = 1"
    using assms(1) by (simp add: firstPage_def)
  have ne: "take PAGE_SIZE fs \<noteq> []"
    using assms(4) by (auto simp: PAGE_SIZE_def)
  show "entries (firstPage fs self) \<noteq> []"
    using ne by (simp add: firstPage_def nd)
  have "last (take PAGE_SIZE fs) = fs ! (PAGE_SIZE - 1)"
    using assms(4) ne by (simp add: last_conv_nth PAGE_SIZE_def)
  then show "name (definition (props (last (entries (firstPage fs self))))) = name (fs ! (PAGE_SIZE - 1))"
    using ne by (simp add: firstPage_def nd last_map)
qed

text \<open>The node after the second and last page has been appended.\<close>

definition secondPage :: "file_definition list \<Rightarrow> AssistStorageEntry \<Rightarrow> AssistStorageEntry" where
  "secondPage fs self1 =
     set_entries (entries self1 @ map (childEntry self1) (filter notDot (drop PAGE_SIZE fs)))
       (upd (\<lambda>p. p\<lparr>currentPage := currentPage p + 1, loadingMore := False, hasErrors := False,
                   hasMorePages := morePages None (currentPage p + 1)\<rparr>) self1)"

lemma paged_more:
  assumes "hasMorePages (props self1)" "\<not> loadingMore (props self1)"
    "TYPE_SPECIFICS (source (props self1)) = Some fn" "currentPage (props self1) = 1"
    "length fs \<le> 2 * PAGE_SIZE"
  shows "fetchMore (pagedListing fs) log self1 =
           (log @ [(FetchMore, moreRequest fn self1)], secondPage fs self1, SuccessCallback)"
proof -
  have "pagedListing fs (length log) (moreRequest fn self1) =
          Success (drop PAGE_SIZE fs) None None"
    using assms(4,5) by (simp add: pagedListing_def moreRequest_def mkRequest_def)
  from fetchMore_success [where be = "pagedListing fs" and log = log, OF assms(1) assms(2) assms(3) this] show ?thesis
    by (simp add: secondPage_def)
qed

lemma secondPage_names:
  assumes "list_all notDot fs" "namesOf self1 = map name (take PAGE_SIZE fs)"
  shows "namesOf (secondPage fs self1) = map name fs"
proof -
  have nd: "filter notDot (drop PAGE_SIZE fs) = drop PAGE_SIZE fs"
    using assms(1) by (simp add: list_all_iff filter_id_conv) (meson in_set_dropD)
  have "namesOf (secondPage fs self1) = namesOf self1 @ map name (drop PAGE_SIZE fs)"
    by (simp add: namesOf_def secondPage_def nd comp_def)
  also have "\<dots> = map name (take PAGE_SIZE fs @ drop PAGE_SIZE fs)"
    unfolding assms(2) by (simp only: map_append)
  finally show ?thesis by simp
qed

lemma nth_not_in_take:
  assumes "distinct xs" "n \<le> k" "k < length xs"
  shows "xs ! k \<notin> set (take n xs)"
proof -
  have "distinct (take n xs @ drop n xs)" using assms(1) by simp
  then have "set (take n xs) \<inter> set (drop n xs) = {}" by (simp only: distinct_append)
  moreover have "xs ! k \<in> set (drop n xs)"
    using assms(2,3) by (metis Cons_nth_drop_Suc list.set_intros(1) set_drop_subset_set_drop subsetD)
  ultimately show ?thesis by blast
qed

lemma walk_second_page:
  assumes fresh: "\<not> loaded (props self)" "\<not> loading (props self)" "\<not> loadingMore (props self)"
      "currentPage (props self) = 1"
    and fn: "TYPE_SPECIFICS (source (props self)) = Some fn"
    and size: "PAGE_SIZE < length fs" "length fs \<le> 2 * PAGE_SIZE"
    and nd: "list_all notDot fs"
    and dist: "distinct (map name fs)"
    and sorted: "sorted_wrt (\<lambda>a b. lc a b \<le> 0) (map name fs)"
    and k: "PAGE_SIZE \<le> k" "k < length fs"
    and rel: "folders \<noteq> []" "relativeFolders RegExp (rootPath (props self)) folders = Some [name (fs ! k)]"
  shows "loadDeep RegExp lc (pagedListing fs) log self folders =
           (log @ [(LoadEntries, loadRequest fn self), (FetchMore, moreRequest fn (firstPage fs self))],
            secondPage fs (firstPage fs self), Resolved [k])"
proof -
  let ?be = "pagedListing fs"
  let ?t = "name (fs ! k)"
  let ?s1 = "firstPage fs self"
  let ?s2 = "secondPage fs ?s1"
  let ?log1 = "log @ [(LoadEntries, loadRequest fn self)]"
  let ?log2 = "?log1 @ [(FetchMore, moreRequest fn ?s1)]"
  note fp = firstPage_props [OF fresh(4) fresh(3) nd size(1)]
  have ld: "loadDeep RegExp lc ?be log self folders = afterLoad RegExp lc ?be [?t] (?log1, ?s1, SuccessCallback)"
    using loadDeep_step [OF rel, of lc ?be log] fresh(1)
      paged_load [OF fresh(2) fresh(4) fn size(1), of log] by simp
  have "?t = map name fs ! k" using k(2) by simp
  then have "?t \<notin> set (take PAGE_SIZE (map name fs))"
    using nth_not_in_take [OF dist k(1)] k(2) by simp
  then have f1: "foundEntry ?s1 ?t = []"
    unfolding foundEntry_names fp(1) by (intro filter_index_absent) (simp add: take_map)
  have "PAGE_SIZE - 1 < k" using k(1) by (simp add: PAGE_SIZE_def)
  from sorted_wrt_nth_less [OF sorted this] k(2) size(1)
  have "lc (name (fs ! (PAGE_SIZE - 1))) ?t \<le> 0" by (simp add: PAGE_SIZE_def)
  then have p1: "\<not> passedAlphabetically lc ?s1 ?t"
    unfolding passedAlphabetically_def fp(7) by simp
  have fm: "fetchMore ?be ?log1 ?s1 = (?log2, ?s2, SuccessCallback)"
    using paged_more [OF fp(2) fp(3) _ fp(5) size(2), of fn ?log1] fn fp(4) by simp
  have n2: "namesOf ?s2 = map name fs"
    by (rule secondPage_names [OF nd fp(1)])
  have f2: "foundEntry ?s2 ?t = [k]"
    unfolding foundEntry_names n2
    using filter_index_distinct [OF dist, of k] k(2) by simp
  have s1: "findNextAndLoadDeep lc ?be ?t ?log1 ?s1 0 = findNextAndLoadDeep lc ?be ?t ?log2 ?s2 (Suc 0)"
    using findNext_more [where lc = lc and t = ?t and lp = 0, OF _ p1 fp(2) _ fm] f1 by simp
  have s2: "findNextAndLoadDeep lc ?be ?t ?log2 ?s2 (Suc 0) = (?log2, ?s2, Suc 0, Descend k)"
    using findNext_found [of ?s2 ?t lc ?be ?log2 "Suc 0"] f2 by simp
  have "set_entries ((entries ?s2)[k := entries ?s2 ! k]) ?s2 = ?s2"
    by (cases ?s2) (simp add: set_entries_def)
  moreover have "findNextAndLoadDeep lc ?be ?t ?log1 ?s1 0 = (?log2, ?s2, Suc 0, Descend k)"
    using s1 s2 by simp
  ultimately show ?thesis
    unfolding ld by (simp add: afterLoad_def loadDeep_Nil)
qed

lemma walk_before_first:
  assumes fresh: "\<not> loaded (props self)" "\<not> loading (props self)" "\<not> loadingMore (props self)"
      "currentPage (props self) = 1"
    and fn: "TYPE_SPECIFICS (source (props self)) = Some fn"
    and size: "PAGE_SIZE < length fs"
    and nd: "list_all notDot fs"
    and before: "list_all (\<lambda>f. 0 < lc (name f) t) fs" "lc t t = 0"
    and rel: "folders \<noteq> []" "relativeFolders RegExp (rootPath (props self)) folders = Some [t]"
  shows "loadDeep RegExp lc (pagedListing fs) log self folders =
           (log @ [(LoadEntries, loadRequest fn self)], firstPage fs self, Resolved [])"
proof -
  let ?be = "pagedListing fs"
  let ?s1 = "firstPage fs self"
  let ?log1 = "log @ [(LoadEntries, loadRequest fn self)]"
  note fp = firstPage_props [OF fresh(4) fresh(3) nd size(1)]
  have ld: "loadDeep RegExp lc ?be log self folders = afterLoad RegExp lc ?be [t] (?log1, ?s1, SuccessCallback)"
    using loadDeep_step [OF rel, of lc ?be log] fresh(1)
      paged_load [OF fresh(2) fresh(4) fn size(1), of log] by simp
  have "t \<notin> set (map name fs)"
    using before by (auto simp: list_all_iff)
  then have "t \<notin> set (map name (take PAGE_SIZE fs))"
    by (metis in_set_takeD take_map)
  then have f1: "foundEntry ?s1 t = []"
    unfolding foundEntry_names fp(1) by (rule filter_index_absent)
  have "fs ! (PAGE_SIZE - 1) \<in> set fs"
    using size by (simp add: PAGE_SIZE_def)
  then have "0 < lc (name (fs ! (PAGE_SIZE - 1))) t"
    using before(1) by (simp add: list_all_iff)
  then have p1: "passedAlphabetically lc ?s1 t"
    unfolding passedAlphabetically_def fp(7) using fp(6) by simp
  have "findNextAndLoadDeep lc ?be t ?log1 ?s1 0 = (?log1, ?s1, 0, Done)"
    using findNext_done [of ?s1 t lc 0 ?be ?log1] f1 p1 by simp
  then show ?thesis
    unfolding ld by (simp add: afterLoad_def)
qed

lemma page_numbers:
  assumes "currentPage (props self) = 1" "\<not> loadingMore (props self)" "list_all notDot fs"
    "PAGE_SIZE < length fs"
  shows "req_page (loadRequest fn self) = 1" "req_pageSize (loadRequest fn self) = 100"
    "req_page (moreRequest fn (firstPage fs self)) = 2"
    "req_pageSize (moreRequest fn (firstPage fs self)) = 100"
  using assms(1) firstPage_props(5) [OF assms]
  by (simp_all add: loadRequest_def moreRequest_def mkRequest_def PAGE_SIZE_def)

text \<open>A listing of 120 directories in code unit order: \<open>a0\<close>, ..., \<open>a9\<close>, \<open>b0\<close>, ..., \<open>l9\<close>.\<close>

definition sortedListing :: "file_definition list" where
  "sortedListing =
     map dirNamed (concat (map (\<lambda>a. map (\<lambda>b. [a, b]) ''0123456789'') ''abcdefghijkl''))"

lemma codeUnitCompare_trans:
  "codeUnitCompare a b \<le> 0 \<Longrightarrow> codeUnitCompare b c \<le> 0 \<Longrightarrow> codeUnitCompare a c \<le> 0"
proof (induction a arbitrary: b c)
  case Nil
  then show ?case by (cases c) simp_all
next
  case (Cons x xs)
  show ?case
  proof (cases b)
    case Nil
    with Cons.prems show ?thesis by simp
  next
    case b: (Cons y ys)
    show ?thesis
    proof (cases c)
      case Nil
      with Cons.prems b show ?thesis by simp
    next
      case c: (Cons z zs)
      show ?thesis
        using Cons.prems Cons.IH [of ys zs] unfolding b c
        by (auto split: if_splits)
    qed
  qed
qed

lemma transp_codeUnitCompare: "transp (\<lambda>a b. codeUnitCompare a b \<le> 0)"
  by (rule transpI) (rule codeUnitCompare_trans)

lemma sortedListing_sorted: "sorted_wrt (\<lambda>a b. codeUnitCompare a b \<le> 0) (map name sortedListing)"
proof -
  have "successively (\<lambda>a b. codeUnitCompare a b \<le> 0) (map name sortedListing)"
    by code_simp
  then show ?thesis
    by (simp only: successively_conv_sorted_wrt [OF transp_codeUnitCompare])
qed

text \<open>
  Claim C4. An entry that is not loaded, with a backend that lists 120 entries in pages of
  the requested size (the code asks for 100), the names distinct, none of them \<open>.\<close> or
  \<open>..\<close>, sorted by the collation. A walk for a target that is the name of an entry of the
  second page (index \<open>k\<close> from 100) makes the initial \<open>loadEntries\<close> request for page 1
  and exactly one \<open>fetchMore\<close> request, for page 2, and resolves to the child \<open>k\<close>. A walk
  for a target before the entries (every entry compares greater than it, so the last child
  of page 1 does and \<open>passedAlphabetically\<close> is true) makes the initial request and no
  other, and resolves to the entry itself, with the children of page 1.
\<close>

theorem C4_sorted_listing_walk:
  assumes fresh: "\<not> loaded (props self)" "\<not> loading (props self)" "\<not> loadingMore (props self)"
      "currentPage (props self) = 1"
    and fn: "TYPE_SPECIFICS (source (props self)) = Some fn"
    and listing: "length fs = 120" "list_all notDot fs" "distinct (map name fs)"
      "sorted_wrt (\<lambda>a b. lc a b \<le> 0) (map name fs)"
  shows "(100 \<le> k \<and> k < 120 \<and> folders \<noteq> []
            \<and> relativeFolders RegExp (rootPath (props self)) folders = Some [name (fs ! k)] \<longrightarrow>
          (\<exists>self' r1 r2.
             loadDeep RegExp lc (pagedListing fs) log self folders =
               (log @ [(LoadEntries, r1), (FetchMore, r2)], self', Resolved [k])
             \<and> req_page r1 = 1 \<and> req_pageSize r1 = 100 \<and> req_page r2 = 2 \<and> req_pageSize r2 = 100
             \<and> map (\<lambda>e. name (definition (props e))) (entries self') = map name fs))
       \<and> (list_all (\<lambda>f. 0 < lc (name f) t) fs \<and> lc t t = 0 \<and> folders' \<noteq> []
            \<and> relativeFolders RegExp (rootPath (props self)) folders' = Some [t] \<longrightarrow>
          (\<exists>self' r1.
             loadDeep RegExp lc (pagedListing fs) log self folders' = (log @ [(LoadEntries, r1)], self', Resolved [])
             \<and> req_page r1 = 1 \<and> req_pageSize r1 = 100
             \<and> passedAlphabetically lc self' t
             \<and> map (\<lambda>e. name (definition (props e))) (entries self') = map name (take 100 fs)))"
proof (intro conjI impI)
  have size: "PAGE_SIZE < length fs" "length fs \<le> 2 * PAGE_SIZE"
    using listing(1) by (simp_all add: PAGE_SIZE_def)
  note fp = firstPage_props [OF fresh(4) fresh(3) listing(2) size(1)]
  note pn = page_numbers [OF fresh(4) fresh(3) listing(2) size(1), of fn]
  {
    assume a: "100 \<le> k \<and> k < 120 \<and> folders \<noteq> []
      \<and> relativeFolders RegExp (rootPath (props self)) folders = Some [name (fs ! k)]"
    then have k: "PAGE_SIZE \<le> k" "k < length fs"
      using listing(1) by (simp_all add: PAGE_SIZE_def)
    from a have rel: "folders \<noteq> []"
      "relativeFolders RegExp (rootPath (props self)) folders = Some [name (fs ! k)]" by simp_all
    have "namesOf (secondPage fs (firstPage fs self)) = map name fs"
      by (rule secondPage_names [OF listing(2) fp(1)])
    then show "\<exists>self' r1 r2.
             loadDeep RegExp lc (pagedListing fs) log self folders =
               (log @ [(LoadEntries, r1), (FetchMore, r2)], self', Resolved [k])
             \<and> req_page r1 = 1 \<and> req_pageSize r1 = 100 \<and> req_page r2 = 2 \<and> req_pageSize r2 = 100
             \<and> map (\<lambda>e. name (definition (props e))) (entries self') = map name fs"
      using walk_second_page [OF fresh fn size listing(2,3,4) k rel, of log] pn
      unfolding namesOf_def by blast
  }
  {
    assume a: "list_all (\<lambda>f. 0 < lc (name f) t) fs \<and> lc t t = 0 \<and> folders' \<noteq> []
      \<and> relativeFolders RegExp (rootPath (props self)) folders' = Some [t]"
    then have before: "list_all (\<lambda>f. 0 < lc (name f) t) fs" "lc t t = 0" and rel: "folders' \<noteq> []"
      "relativeFolders RegExp (rootPath (props self)) folders' = Some [t]" by simp_all
    have "fs ! (PAGE_SIZE - 1) \<in> set fs"
      using size by (simp add: PAGE_SIZE_def)
    then have "0 < lc (name (fs ! (PAGE_SIZE - 1))) t"
      using before(1) by (simp add: list_all_iff)
    then have p1: "passedAlphabetically lc (firstPage fs self) t"
      unfolding passedAlphabetically_def fp(7) using fp(6) by simp
    have "map (\<lambda>e. name (definition (props e))) (entries (firstPage fs self)) = map name (take 100 fs)"
      using fp(1) by (simp add: namesOf_def PAGE_SIZE_def)
    then show "\<exists>self' r1.
             loadDeep RegExp lc (pagedListing fs) log self folders' = (log @ [(LoadEntries, r1)], self', Resolved [])
             \<and> req_page r1 = 1 \<and> req_pageSize r1 = 100
             \<and> passedAlphabetically lc self' t
             \<and> map (\<lambda>e. name (definition (props e))) (entries self') = map name (take 100 fs)"
      using walk_before_first [where lc = lc and t = t and log = log, OF fresh fn size(1) listing(2) before rel] pn p1
      by blast
  }
qed

theorem C4_sorted_listing_walk_witness:
  "(\<not> loaded (props hdfsRoot) \<and> \<not> loading (props hdfsRoot) \<and> \<not> loadingMore (props hdfsRoot)
    \<and> currentPage (props hdfsRoot) = 1
    \<and> TYPE_SPECIFICS (source (props hdfsRoot)) = Some ''fetchHdfsPath''
    \<and> length sortedListing = 120 \<and> list_all notDot sortedListing
    \<and> distinct (map name sortedListing)
    \<and> sorted_wrt (\<lambda>a b. codeUnitCompare a b \<le> 0) (map name sortedListing)
    \<and> name (sortedListing ! 105) = ''k5''
    \<and> relativeFolders (engineOf []) (rootPath (props hdfsRoot)) [''k5''] = Some [''k5'']
    \<and> list_all (\<lambda>f. 0 < codeUnitCompare (name f) ''a'') sortedListing
    \<and> codeUnitCompare ''a'' ''a'' = 0
    \<and> relativeFolders (engineOf []) (rootPath (props hdfsRoot)) [''a''] = Some [''a''])
   \<and> (\<exists>self' r1 r2.
         loadDeep (engineOf []) codeUnitCompare (pagedListing sortedListing) [] hdfsRoot [''k5''] =
           ([(LoadEntries, r1), (FetchMore, r2)], self', Resolved [105])
         \<and> req_page r1 = 1 \<and> req_page r2 = 2)
   \<and> (\<exists>self' r1.
         loadDeep (engineOf []) codeUnitCompare (pagedListing sortedListing) [] hdfsRoot [''a''] =
           ([(LoadEntries, r1)], self', Resolved []))"
proof -
  have h1: "\<not> loaded (props hdfsRoot)" "\<not> loading (props hdfsRoot)"
    "\<not> loadingMore (props hdfsRoot)" "currentPage (props hdfsRoot) = 1"
    "TYPE_SPECIFICS (source (props hdfsRoot)) = Some ''fetchHdfsPath''"
    by code_simp+
  have h2: "length sortedListing = 120" "list_all notDot sortedListing"
    by code_simp+
  have h3: "distinct (map name sortedListing)"
    by code_simp
  note h4 = sortedListing_sorted
  have h5: "name (sortedListing ! 105) = ''k5''"
    "relativeFolders (engineOf []) (rootPath (props hdfsRoot)) [''k5''] = Some [''k5'']"
    "list_all (\<lambda>f. 0 < codeUnitCompare (name f) ''a'') sortedListing"
    "codeUnitCompare ''a'' ''a'' = 0"
    "relativeFolders (engineOf []) (rootPath (props hdfsRoot)) [''a''] = Some [''a'']"
    by code_simp+
  have a: "100 \<le> (105::nat) \<and> (105::nat) < 120 \<and> [''k5''] \<noteq> []
      \<and> relativeFolders (engineOf []) (rootPath (props hdfsRoot)) [''k5''] = Some [name (sortedListing ! 105)]"
    using h5(1,2) by simp
  have b: "list_all (\<lambda>f. 0 < codeUnitCompare (name f) ''a'') sortedListing
      \<and> codeUnitCompare ''a'' ''a'' = 0 \<and> [''a''] \<noteq> []
      \<and> relativeFolders (engineOf []) (rootPath (props hdfsRoot)) [''a''] = Some [''a'']"
    using h5(3,4,5) by simp
  note c = C4_sorted_listing_walk [where lc = codeUnitCompare and t = "''a''" and log = "[]"
      and RegExp = "engineOf []" and k = 105 and folders = "[''k5'']" and folders' = "[''a'']", OF h1 h2 h3 h4]
  from c a have "\<exists>self' r1 r2.
         loadDeep (engineOf []) codeUnitCompare (pagedListing sortedListing) [] hdfsRoot [''k5''] =
           ([(LoadEntries, r1), (FetchMore, r2)], self', Resolved [105])
         \<and> req_page r1 = 1 \<and> req_page r2 = 2"
    by (simp only: append_Nil) blast
  moreover from c b have "\<exists>self' r1.
         loadDeep (engineOf []) codeUnitCompare (pagedListing sortedListing) [] hdfsRoot [''a''] =
           ([(LoadEntries, r1)], self', Resolved [])"
    by (simp only: append_Nil) blast
  ultimately show ?thesis
    using h1 h2 h3 h4 h5 by blast
qed

end
